theory Spec2Isabelle
  imports Complex_Main "HOL-Library.Word" "HOL-Library.Signed_Division"
begin

section \<open>The colour ASCII video converter\<close>

text \<open>
  A shallow embedding of the converter of \<^verbatim>\<open>src/unnamed/part_000\<close>, the version with the
  \<^verbatim>\<open>ASCIIVideoConstants\<close> namespace. \<^verbatim>\<open>src/miku.cpp\<close> is a copy of the same program with
  the same ramp and the same arithmetic: the constants are written as literals,
  \<^verbatim>\<open>generateColorASCIIFrame\<close> takes the cell size and the font scale as arguments, and the
  writer is opened with two candidates (\<^verbatim>\<open>mp4v\<close>, then \<^verbatim>\<open>avc1\<close>) by nested conditionals
  instead of the loop over four.

  Conventions of the embedding.
  \<^item> A \<^verbatim>\<open>double\<close> is the real number it denotes; NaN, the infinities and overflow beyond
    the largest finite double are not modelled. The arithmetic on doubles in the brightness
    of a pixel and in \<^verbatim>\<open>getASCIIChar\<close> rounds as IEEE 754 binary64 does, to the nearest
    representable number with ties to even: the literals \<^verbatim>\<open>0.299\<close>, \<^verbatim>\<open>0.587\<close>, \<^verbatim>\<open>0.114\<close> and
    \<^verbatim>\<open>0.3\<close>, every product, every sum, the division by \<^verbatim>\<open>255.0\<close> and the conversion of a
    \<^verbatim>\<open>size_t\<close> are each rounded on their own, in the order of the expression (no fused
    multiply-add, no wider intermediate format). A pixel component or an \<^verbatim>\<open>int\<close> converted
    to \<^verbatim>\<open>double\<close> is exact, and so is the halving of an \<^verbatim>\<open>int\<close> in the grid height, which
    is written without rounding.
  \<^item> An \<^verbatim>\<open>int\<close> is a mathematical integer. The arithmetic of \<^verbatim>\<open>convertToColorASCII\<close> on
    its argument and on the properties of the video, the casts of \<^verbatim>\<open>getASCIIChar\<close> and the
    value of \<^verbatim>\<open>atoi\<close> carry an explicit range check: signed overflow, division by zero
    and a \<^verbatim>\<open>static_cast<int>\<close> of an unrepresentable double are undefined behaviour in C++
    and are a \<open>fault\<close> of the model. Pixel coordinates inside an image and the frame
    counter are not checked.
  \<^item> \<^verbatim>\<open>size_t\<close> is 64 bits wide.
  \<^item> OpenCV (\<^verbatim>\<open>VideoCapture\<close>, \<^verbatim>\<open>VideoWriter\<close>, \<^verbatim>\<open>resize\<close>, \<^verbatim>\<open>putText\<close>) is a parameter of
    the model; console output on \<^verbatim>\<open>std::cout\<close> is not modelled.
\<close>

subsection \<open>Faults and machine numbers\<close>

datatype fault =
    DivideByZero
  | SignedOverflow
  | CastOutOfRange
  | IndexOutOfRange
  | AtoiOutOfRange
  | CvException

definition INT_MAX :: int where
  "INT_MAX = 2147483647"

definition INT_MIN :: int where
  "INT_MIN = - 2147483648"

definition fits_int :: "int \<Rightarrow> bool" where
  "fits_int k = (INT_MIN \<le> k \<and> k \<le> INT_MAX)"

text \<open>\<^verbatim>\<open>a * b\<close> on \<^verbatim>\<open>int\<close> operands.\<close>

definition int_mul :: "int \<Rightarrow> int \<Rightarrow> fault + int" where
  "int_mul a b = (if fits_int (a * b) then Inr (a * b) else Inl SignedOverflow)"

text \<open>\<^verbatim>\<open>a / b\<close> on \<^verbatim>\<open>int\<close> operands: the quotient is truncated towards zero.\<close>

definition int_div :: "int \<Rightarrow> int \<Rightarrow> fault + int" where
  "int_div a b =
     (if b = 0 then Inl DivideByZero
      else if fits_int (a sdiv b) then Inr (a sdiv b)
      else Inl SignedOverflow)"

text \<open>
  Rounding to binary64. A real is rounded to the nearest integer, a tie going to the even
  one. The exponent of the binade of \<open>x\<close> is the largest \<open>e\<close> between -1022 and 1023 with
  \<open>2 ^ e \<le> \<bar>x\<bar>\<close>; when there is none it is -1022, the exponent that the subnormal numbers
  share with the smallest normal ones. A binary64 number has 53 significant bits, so the
  doubles of the binade of exponent \<open>e\<close> are the multiples of \<open>2 ^ (e - 52)\<close>, and
  \<open>binary64 x\<close> is the double nearest to \<open>x\<close>, ties to even.
\<close>

definition round_ties_even :: "real \<Rightarrow> int" where
  "round_ties_even y =
     (if y - of_int \<lfloor>y\<rfloor> < 1 / 2 then \<lfloor>y\<rfloor>
      else if 1 / 2 < y - of_int \<lfloor>y\<rfloor> then \<lfloor>y\<rfloor> + 1
      else if even \<lfloor>y\<rfloor> then \<lfloor>y\<rfloor>
      else \<lfloor>y\<rfloor> + 1)"

definition binade :: "real \<Rightarrow> int" where
  "binade x = Max (insert (- 1022) {e \<in> {- 1022..1023}. 2 powi e \<le> \<bar>x\<bar>})"

definition binary64 :: "real \<Rightarrow> real" where
  "binary64 x =
     of_int (round_ties_even (x / 2 powi (binade x - 52))) * 2 powi (binade x - 52)"

text \<open>\<^verbatim>\<open>static_cast<int>(d)\<close> for a double \<open>d\<close>: the fractional part is discarded.\<close>

definition truncate_real :: "real \<Rightarrow> int" where
  "truncate_real d = (if 0 \<le> d then \<lfloor>d\<rfloor> else \<lceil>d\<rceil>)"

definition double_to_int :: "real \<Rightarrow> fault + int" where
  "double_to_int d =
     (if fits_int (truncate_real d) then Inr (truncate_real d) else Inl CastOutOfRange)"

text \<open>\<^verbatim>\<open>s.length() - 1\<close> in \<^verbatim>\<open>size_t\<close> arithmetic, which wraps around for the empty string.\<close>

definition length_minus_one :: "string \<Rightarrow> nat" where
  "length_minus_one s = (length s + 2 ^ 64 - 1) mod 2 ^ 64"

text \<open>\<^verbatim>\<open>static_cast<int>(n)\<close> for a \<^verbatim>\<open>size_t\<close> \<open>n\<close>: the low 32 bits, read as two's complement.\<close>

definition size_to_int :: "nat \<Rightarrow> int" where
  "size_to_int n =
     (if int n mod 2 ^ 32 < 2 ^ 31 then int n mod 2 ^ 32 else int n mod 2 ^ 32 - 2 ^ 32)"

subsection \<open>The character ramp and the glyph mapper\<close>

text \<open>
  \<^verbatim>\<open>ASCIIVideoConstants::ASCII_CHARS\<close>, dark to light. The quote, backquote, double quote
  and backslash of the C++ literal are written by their codes.
\<close>

definition ASCII_CHARS :: string where
  "ASCII_CHARS =
     '' .'' @ [CHR 0x27, CHR 0x60] @ ''^'' @ [CHR 0x22] @ '',:;Il!i><~+_-?][}{1)(|'' @ [CHR 0x5C]
       @ ''/tfjrxnuvczXYUJCLQ0OZmwqpdbkhao*#MW&8%B@$''"

text \<open>
  The first three statements of \<^verbatim>\<open>getASCIIChar\<close>: the brightness is clamped to \<open>[0,1]\<close>,
  multiplied by \<^verbatim>\<open>currentCharset.length() - 1\<close> (a \<^verbatim>\<open>size_t\<close>, converted to \<^verbatim>\<open>double\<close> for the
  product), and the product, a double, is truncated to \<^verbatim>\<open>int\<close> and clamped again.
\<close>

definition glyph_index :: "string \<Rightarrow> real \<Rightarrow> fault + int" where
  "glyph_index currentCharset brightness =
     (let brightness' = max 0 (min 1 brightness) in
      case double_to_int
             (binary64 (brightness' * binary64 (real (length_minus_one currentCharset)))) of
        Inl f \<Rightarrow> Inl f
      | Inr index \<Rightarrow>
          Inr (max 0 (min (size_to_int (length_minus_one currentCharset)) index)))"

text \<open>
  \<^verbatim>\<open>currentCharset[index]\<close>: \<^verbatim>\<open>std::string::operator[]\<close> is defined for positions up to and
  including the length (where it yields the terminating zero) and undefined beyond.
\<close>

definition string_at :: "string \<Rightarrow> int \<Rightarrow> fault + char" where
  "string_at s i =
     (if 0 \<le> i \<and> i < int (length s) then Inr (s ! nat i)
      else if i = int (length s) then Inr (CHR 0x00)
      else Inl IndexOutOfRange)"

definition getASCIIChar :: "string \<Rightarrow> real \<Rightarrow> fault + char" where
  "getASCIIChar currentCharset brightness =
     (case glyph_index currentCharset brightness of
        Inl f \<Rightarrow> Inl f
      | Inr index \<Rightarrow> string_at currentCharset index)"

text \<open>
  The weights \<^verbatim>\<open>RED_WEIGHT\<close>, \<^verbatim>\<open>GREEN_WEIGHT\<close> and \<^verbatim>\<open>BLUE_WEIGHT\<close> are the doubles nearest to
  the decimal literals. The brightness expression of \<^verbatim>\<open>generateColorASCIIFrame\<close>,
  \<^verbatim>\<open>(RED_WEIGHT * pixel[2] + GREEN_WEIGHT * pixel[1] + BLUE_WEIGHT * pixel[0]) / 255.0\<close>,
  is evaluated from left to right; the arguments are the red, green and blue components
  as doubles.
\<close>

definition RED_WEIGHT :: real where "RED_WEIGHT = binary64 0.299"
definition GREEN_WEIGHT :: real where "GREEN_WEIGHT = binary64 0.587"
definition BLUE_WEIGHT :: real where "BLUE_WEIGHT = binary64 0.114"

definition luminance :: "real \<Rightarrow> real \<Rightarrow> real \<Rightarrow> real" where
  "luminance r g b =
     binary64
       (binary64
          (binary64 (binary64 (RED_WEIGHT * r) + binary64 (GREEN_WEIGHT * g))
             + binary64 (BLUE_WEIGHT * b))
        / 255)"

text \<open>The spec's words: \<open>clamp(v) = max(0, min(1, v))\<close> and
  \<open>glyphIndex(b) = clamp(floor(b \<times> (N - 1)), 0, N - 1)\<close>.\<close>

definition clamp_unit_spec :: "real \<Rightarrow> real" where
  "clamp_unit_spec v = max 0 (min 1 v)"

definition clamp_spec :: "int \<Rightarrow> int \<Rightarrow> int \<Rightarrow> int" where
  "clamp_spec v lo hi = max lo (min hi v)"

definition glyphIndex_spec :: "nat \<Rightarrow> real \<Rightarrow> int" where
  "glyphIndex_spec N b = clamp_spec \<lfloor>b * (real N - 1)\<rfloor> 0 (int N - 1)"

text \<open>The same formula with the product rounded to the nearest double before the floor is
  taken: \<open>clamp(floor(fl(b \<times> (N - 1))), 0, N - 1)\<close>, where \<open>fl\<close> is the rounding to binary64.\<close>

definition glyphIndex_binary64 :: "nat \<Rightarrow> real \<Rightarrow> int" where
  "glyphIndex_binary64 N b = clamp_spec \<lfloor>binary64 (b * (real N - 1))\<rfloor> 0 (int N - 1)"

subsection \<open>Images and the OpenCV capability\<close>

text \<open>
  A \<^verbatim>\<open>cv::Vec3b\<close> pixel is the triple (\<^verbatim>\<open>pixel[0]\<close>, \<^verbatim>\<open>pixel[1]\<close>, \<^verbatim>\<open>pixel[2]\<close>), that is
  blue, green, red. A \<^verbatim>\<open>cv::Scalar\<close> is given by its first three channels, a
  \<^verbatim>\<open>cv::Point\<close> is \<open>(x, y)\<close> and a \<^verbatim>\<open>cv::Size\<close> is \<open>(width, height)\<close>.
  A \<^verbatim>\<open>CV_8UC3\<close> matrix has a row count, a column count and a pixel at
  every (row, column); the counts of a matrix are never negative.
\<close>

type_synonym uchar = "8 word"
type_synonym vec3b = "uchar \<times> uchar \<times> uchar"
type_synonym scalar = "real \<times> real \<times> real"
type_synonym point = "int \<times> int"
type_synonym size = "int \<times> int"

record mat =
  rows :: nat
  cols :: nat
  pixel_at :: "nat \<Rightarrow> nat \<Rightarrow> vec3b"

text \<open>\<^verbatim>\<open>frame.empty()\<close>.\<close>

definition mat_empty :: "mat \<Rightarrow> bool" where
  "mat_empty m = (rows m = 0 \<or> cols m = 0)"

text \<open>\<^verbatim>\<open>cv::Mat(rows, cols, CV_8UC3, cv::Scalar(0, 0, 0))\<close>.\<close>

definition black :: vec3b where
  "black = (0, 0, 0)"

definition black_mat :: "nat \<Rightarrow> nat \<Rightarrow> mat" where
  "black_mat r c = \<lparr>rows = r, cols = c, pixel_at = (\<lambda>y x. black)\<rparr>"

text \<open>
  An opened \<^verbatim>\<open>cv::VideoCapture\<close>: the properties that \<^verbatim>\<open>cap.get\<close> reports (the three
  counts already converted to \<^verbatim>\<open>int\<close>) and the frames not read yet.
\<close>

record capture =
  cap_fps :: real
  cap_frame_count :: int
  cap_frame_width :: int
  cap_frame_height :: int
  cap_pending :: "mat list"

text \<open>\<^verbatim>\<open>cap >> frame\<close>: the next frame, or an empty matrix once the stream is exhausted.\<close>

definition cap_read :: "capture \<Rightarrow> mat \<times> capture" where
  "cap_read cap =
     (case cap_pending cap of
        [] \<Rightarrow> (black_mat 0 0, cap)
      | frame # rest \<Rightarrow> (frame, cap\<lparr>cap_pending := rest\<rparr>))"

text \<open>
  What the program asks of OpenCV:
  \<^item> \<open>capture_open path\<close>: \<^verbatim>\<open>cv::VideoCapture cap(path)\<close>, \<open>None\<close> when
    \<^verbatim>\<open>cap.isOpened()\<close> is false;
  \<^item> \<open>writer_open path fourcc fps size\<close>: whether \<^verbatim>\<open>writer.isOpened()\<close> holds after
    \<^verbatim>\<open>writer.open(path, fourcc, fps, size)\<close>;
  \<^item> \<open>cv_resize src size\<close>: \<^verbatim>\<open>cv::resize(src, dst, size, 0, 0, cv::INTER_AREA)\<close>, \<open>None\<close>
    when it throws;
  \<^item> \<open>cv_putText img text org fontScale color\<close>: the image after
    \<^verbatim>\<open>cv::putText(img, text, org, cv::FONT_HERSHEY_SIMPLEX, fontScale, color, 1, cv::LINE_AA)\<close>.
\<close>

record opencv =
  capture_open :: "string \<Rightarrow> capture option"
  writer_open :: "string \<Rightarrow> int \<Rightarrow> real \<Rightarrow> size \<Rightarrow> bool"
  cv_resize :: "mat \<Rightarrow> size \<Rightarrow> mat option"
  cv_putText :: "mat \<Rightarrow> string \<Rightarrow> point \<Rightarrow> real \<Rightarrow> scalar \<Rightarrow> mat"

text \<open>\<^verbatim>\<open>cv::VideoWriter::fourcc(c1, c2, c3, c4)\<close>.\<close>

definition fourcc :: "char \<Rightarrow> char \<Rightarrow> char \<Rightarrow> char \<Rightarrow> int" where
  "fourcc c1 c2 c3 c4 =
     of_char c1 + of_char c2 * 2 ^ 8 + of_char c3 * 2 ^ 16 + of_char c4 * 2 ^ 24"

text \<open>
  The run is observed through the calls it makes to OpenCV and the diagnostics it
  writes to \<^verbatim>\<open>std::cerr\<close>, in the order in which they happen.
\<close>

datatype diagnostic =
    CannotOpenInput
  | CannotCreateOutput
  | WidthOutOfRange
  | ConversionFailed

datatype event =
    CapOpen string
  | WriterOpen string int real size
  | CapRead
  | Resize size
  | PutText string point scalar
  | WriterWrite mat
  | CapRelease
  | WriterRelease
  | Cerr diagnostic

subsection \<open>Constants\<close>

definition DEFAULT_ASCII_WIDTH :: int where "DEFAULT_ASCII_WIDTH = 80"
definition MIN_ASCII_WIDTH :: int where "MIN_ASCII_WIDTH = 20"
definition MAX_ASCII_WIDTH :: int where "MAX_ASCII_WIDTH = 300"
definition ASCII_CHAR_WIDTH :: int where "ASCII_CHAR_WIDTH = 6"
definition ASCII_CHAR_HEIGHT :: int where "ASCII_CHAR_HEIGHT = 12"
definition ASCII_FONT_SIZE :: real where "ASCII_FONT_SIZE = binary64 0.3"

subsection \<open>The converter\<close>

record converter =
  currentCharset :: string
  frameCount :: int

text \<open>The constructor \<^verbatim>\<open>EnhancedASCIIConverter()\<close>.\<close>

definition new_converter :: converter where
  "new_converter = \<lparr>currentCharset = ASCII_CHARS, frameCount = 0\<rparr>"

text \<open>A counted loop \<^verbatim>\<open>for (int i = 0; i < n; i++) body\<close> over a state, stopping at a fault.\<close>

fun for_each :: "(nat \<Rightarrow> 's \<Rightarrow> fault + 's) \<Rightarrow> nat list \<Rightarrow> 's \<Rightarrow> fault + 's" where
  "for_each body [] s = Inr s"
| "for_each body (i # is) s =
     (case body i s of Inl f \<Rightarrow> Inl f | Inr s' \<Rightarrow> for_each body is s')"

text \<open>
  The body of the two loops of \<^verbatim>\<open>generateColorASCIIFrame\<close>, for the cell in row \<open>y\<close> and
  column \<open>x\<close>; the state is the canvas \<^verbatim>\<open>asciiFrame\<close> and the \<^verbatim>\<open>putText\<close> calls made so far.
\<close>

definition draw_cell ::
  "opencv \<Rightarrow> converter \<Rightarrow> mat \<Rightarrow> nat \<Rightarrow> nat \<Rightarrow> mat \<times> event list \<Rightarrow> fault + mat \<times> event list" where
  "draw_cell cv conv colorFrame y x st =
     (case st of (asciiFrame, calls) \<Rightarrow>
      (case pixel_at colorFrame y x of (p0, p1, p2) \<Rightarrow>
       (let brightness = luminance (real (unat p2)) (real (unat p1)) (real (unat p0)) in
        case getASCIIChar (currentCharset conv) brightness of
          Inl f \<Rightarrow> Inl f
        | Inr asciiChar \<Rightarrow>
            (let textColor = (real (unat p0), real (unat p1), real (unat p2));
                 textPos = (int x * ASCII_CHAR_WIDTH, (int y + 1) * ASCII_CHAR_HEIGHT - 2)
             in Inr (cv_putText cv asciiFrame [asciiChar] textPos ASCII_FONT_SIZE textColor,
                     calls @ [PutText [asciiChar] textPos textColor])))))"

definition generateColorASCIIFrame ::
  "opencv \<Rightarrow> converter \<Rightarrow> mat \<Rightarrow> fault + mat \<times> event list" where
  "generateColorASCIIFrame cv conv colorFrame =
     (let width = cols colorFrame;
          height = rows colorFrame;
          asciiFrame = black_mat (height * nat ASCII_CHAR_HEIGHT) (width * nat ASCII_CHAR_WIDTH)
      in for_each (\<lambda>y. for_each (\<lambda>x. draw_cell cv conv colorFrame y x) [0..<width])
           [0..<height] (asciiFrame, []))"

text \<open>
  The grid height:
  \<^verbatim>\<open>static_cast<int>((asciiWidth * originalHeight / originalWidth) * 0.5)\<close>. The product and
  the quotient are computed on \<^verbatim>\<open>int\<close>, the halving on \<^verbatim>\<open>double\<close>.
\<close>

definition grid_height :: "int \<Rightarrow> int \<Rightarrow> int \<Rightarrow> fault + int" where
  "grid_height asciiWidth originalHeight originalWidth =
     (case int_mul asciiWidth originalHeight of
        Inl f \<Rightarrow> Inl f
      | Inr p \<Rightarrow>
          (case int_div p originalWidth of
             Inl f \<Rightarrow> Inl f
           | Inr q \<Rightarrow> double_to_int (real_of_int q * 0.5)))"

text \<open>\<^verbatim>\<open>cv::Size frameSize(asciiWidth * ASCII_CHAR_WIDTH, asciiHeight * ASCII_CHAR_HEIGHT)\<close>.\<close>

definition frame_size :: "int \<Rightarrow> int \<Rightarrow> fault + size" where
  "frame_size asciiWidth asciiHeight =
     (case int_mul asciiWidth ASCII_CHAR_WIDTH of
        Inl f \<Rightarrow> Inl f
      | Inr w \<Rightarrow>
          (case int_mul asciiHeight ASCII_CHAR_HEIGHT of
             Inl f \<Rightarrow> Inl f
           | Inr h \<Rightarrow> Inr (w, h)))"

text \<open>The candidate encoders, in the order in which they are tried.\<close>

definition codecList :: "int list list" where
  "codecList =
     [[fourcc CHR ''m'' CHR ''p'' CHR ''4'' CHR ''v''],
      [fourcc CHR ''a'' CHR ''v'' CHR ''c'' CHR ''1''],
      [fourcc CHR ''X'' CHR ''2'' CHR ''6'' CHR ''4''],
      [fourcc CHR ''H'' CHR ''2'' CHR ''6'' CHR ''4'']]"

text \<open>
  The loop over \<^verbatim>\<open>codecList\<close>: each candidate is opened in turn and the loop is left at
  the first one for which \<^verbatim>\<open>writer.isOpened()\<close> holds. The result is the encoder the
  writer is open with (\<open>None\<close> when \<^verbatim>\<open>writerOpened\<close> stays false) and the calls made.
\<close>

fun open_writer ::
  "opencv \<Rightarrow> string \<Rightarrow> real \<Rightarrow> size \<Rightarrow> int list list \<Rightarrow> int option \<times> event list" where
  "open_writer cv outputPath fps frameSize [] = (None, [])"
| "open_writer cv outputPath fps frameSize (codec # rest) =
     (if writer_open cv outputPath (codec ! 0) fps frameSize
      then (Some (codec ! 0), [WriterOpen outputPath (codec ! 0) fps frameSize])
      else (case open_writer cv outputPath fps frameSize rest of
              (r, calls) \<Rightarrow> (r, WriterOpen outputPath (codec ! 0) fps frameSize # calls)))"

text \<open>
  The same step in \<^verbatim>\<open>src/miku.cpp\<close>: \<^verbatim>\<open>mp4v\<close> is tried, and when it does not open the
  diagnostic is written at once and \<^verbatim>\<open>avc1\<close> is tried.
\<close>

definition open_writer_inline ::
  "opencv \<Rightarrow> string \<Rightarrow> real \<Rightarrow> size \<Rightarrow> int option \<times> event list" where
  "open_writer_inline cv outputPath fps frameSize =
     (if writer_open cv outputPath (fourcc CHR ''m'' CHR ''p'' CHR ''4'' CHR ''v'') fps frameSize
      then (Some (fourcc CHR ''m'' CHR ''p'' CHR ''4'' CHR ''v''),
            [WriterOpen outputPath (fourcc CHR ''m'' CHR ''p'' CHR ''4'' CHR ''v'') fps frameSize])
      else if writer_open cv outputPath (fourcc CHR ''a'' CHR ''v'' CHR ''c'' CHR ''1'') fps frameSize
      then (Some (fourcc CHR ''a'' CHR ''v'' CHR ''c'' CHR ''1''),
            [WriterOpen outputPath (fourcc CHR ''m'' CHR ''p'' CHR ''4'' CHR ''v'') fps frameSize,
             Cerr CannotCreateOutput,
             WriterOpen outputPath (fourcc CHR ''a'' CHR ''v'' CHR ''c'' CHR ''1'') fps frameSize])
      else (None,
            [WriterOpen outputPath (fourcc CHR ''m'' CHR ''p'' CHR ''4'' CHR ''v'') fps frameSize,
             Cerr CannotCreateOutput,
             WriterOpen outputPath (fourcc CHR ''a'' CHR ''v'' CHR ''c'' CHR ''1'') fps frameSize]))"

text \<open>
  Steps 5.1 and 5.2 of the main loop of \<^verbatim>\<open>convertToColorASCII\<close>: the frame is resized to
  the grid and rasterised. The result is the canvas and the \<^verbatim>\<open>putText\<close> calls.
\<close>

definition process_frame ::
  "opencv \<Rightarrow> converter \<Rightarrow> int \<Rightarrow> int \<Rightarrow> mat \<Rightarrow> fault + mat \<times> event list" where
  "process_frame cv conv asciiWidth asciiHeight frame =
     (case cv_resize cv frame (asciiWidth, asciiHeight) of
        None \<Rightarrow> Inl CvException
      | Some resized \<Rightarrow> generateColorASCIIFrame cv conv resized)"

text \<open>
  The main loop: read, stop at an empty frame, process, write, count. The state is the
  converter, the capture and the events so far.
\<close>

function frame_loop ::
  "opencv \<Rightarrow> int \<Rightarrow> int \<Rightarrow> converter \<times> capture \<times> event list
     \<Rightarrow> fault + converter \<times> capture \<times> event list" where
  "frame_loop cv asciiWidth asciiHeight (conv, cap, tr) =
     (case cap_read cap of (frame, cap') \<Rightarrow>
        if mat_empty frame then Inr (conv, cap', tr @ [CapRead])
        else
          (case process_frame cv conv asciiWidth asciiHeight frame of
             Inl f \<Rightarrow> Inl f
           | Inr (asciiFrame, calls) \<Rightarrow>
               frame_loop cv asciiWidth asciiHeight
                 (conv\<lparr>frameCount := frameCount conv + 1\<rparr>, cap',
                  tr @ [CapRead, Resize (asciiWidth, asciiHeight)] @ calls
                     @ [WriterWrite asciiFrame])))"
  by pat_completeness auto
termination
proof (relation "measure (\<lambda>(cv, asciiWidth, asciiHeight, conv, cap, tr). length (cap_pending cap))")
  show "wf (measure (\<lambda>(cv, asciiWidth, asciiHeight, conv, cap, tr). length (cap_pending cap)))"
    by simp
next
  fix cv :: opencv and asciiWidth asciiHeight :: int and conv :: converter
    and cap cap' :: capture and tr calls :: "event list" and frame asciiFrame :: mat
  assume rd: "(frame, cap') = cap_read cap" and ne: "\<not> mat_empty frame"
  have "length (cap_pending cap') < length (cap_pending cap)"
  proof (cases "cap_pending cap")
    case Nil
    with rd have "frame = black_mat 0 0" by (simp add: cap_read_def)
    with ne show ?thesis by (simp add: mat_empty_def black_mat_def)
  next
    case (Cons f rest)
    with rd show ?thesis by (simp add: cap_read_def)
  qed
  then show "((cv, asciiWidth, asciiHeight, conv\<lparr>frameCount := frameCount conv + 1\<rparr>, cap',
               tr @ [CapRead, Resize (asciiWidth, asciiHeight)] @ calls @ [WriterWrite asciiFrame]),
              (cv, asciiWidth, asciiHeight, conv, cap, tr))
             \<in> measure (\<lambda>(cv, asciiWidth, asciiHeight, conv, cap, tr). length (cap_pending cap))"
    by simp
qed

declare frame_loop.simps [simp del]

text \<open>
  \<^verbatim>\<open>convertToColorASCII\<close>. The result is the returned flag, the converter afterwards and the
  events of the call. \<^verbatim>\<open>testCharacterDisplay\<close> only writes to \<^verbatim>\<open>std::cout\<close>.
\<close>

definition convertToColorASCII ::
  "opencv \<Rightarrow> converter \<Rightarrow> string \<Rightarrow> string \<Rightarrow> int \<Rightarrow> real
     \<Rightarrow> fault + bool \<times> converter \<times> event list" where
  "convertToColorASCII cv conv inputPath outputPath asciiWidth quality =
     (case capture_open cv inputPath of
        None \<Rightarrow> Inr (False, conv, [CapOpen inputPath, Cerr CannotOpenInput])
      | Some cap \<Rightarrow>
          (case grid_height asciiWidth (cap_frame_height cap) (cap_frame_width cap) of
             Inl f \<Rightarrow> Inl f
           | Inr asciiHeight \<Rightarrow>
               (case frame_size asciiWidth asciiHeight of
                  Inl f \<Rightarrow> Inl f
                | Inr frameSize \<Rightarrow>
                    (case open_writer cv outputPath (cap_fps cap) frameSize codecList of
                       (None, opens) \<Rightarrow>
                         Inr (False, conv,
                              CapOpen inputPath # opens @ [Cerr CannotCreateOutput, CapRelease])
                     | (Some codec, opens) \<Rightarrow>
                         (case frame_loop cv asciiWidth asciiHeight
                                 (conv\<lparr>frameCount := 0\<rparr>, cap, CapOpen inputPath # opens) of
                            Inl f \<Rightarrow> Inl f
                          | Inr (conv', cap', tr) \<Rightarrow>
                              Inr (True, conv', tr @ [CapRelease, WriterRelease]))))))"

subsection \<open>The command line\<close>

text \<open>
  \<^verbatim>\<open>std::atoi\<close>, as the C standard describes it: white space is skipped, an optional sign
  is read, then decimal digits up to the first character that is not one. With no digit
  the value is 0; a value that does not fit \<^verbatim>\<open>int\<close> is undefined.
\<close>

definition isspace :: "char \<Rightarrow> bool" where
  "isspace c = (c \<in> set [CHR 0x20, CHR 0x09, CHR 0x0A, CHR 0x0B, CHR 0x0C, CHR 0x0D])"

definition isdigit :: "char \<Rightarrow> bool" where
  "isdigit c = (c \<in> set ''0123456789'')"

definition digit_value :: "char \<Rightarrow> int" where
  "digit_value c = of_char c - 48"

fun digits_value :: "int \<Rightarrow> string \<Rightarrow> int" where
  "digits_value acc [] = acc"
| "digits_value acc (c # cs) =
     (if isdigit c then digits_value (10 * acc + digit_value c) cs else acc)"

definition atoi :: "string \<Rightarrow> fault + int" where
  "atoi s =
     (let v = (case dropWhile isspace s of
                 [] \<Rightarrow> 0
               | c # cs \<Rightarrow>
                   if c = CHR ''-'' then - digits_value 0 cs
                   else if c = CHR ''+'' then digits_value 0 cs
                   else digits_value 0 (c # cs))
      in if fits_int v then Inr v else Inl AtoiOutOfRange)"

text \<open>
  The end of \<^verbatim>\<open>main\<close>: the exit status is 0 when \<^verbatim>\<open>convertToColorASCII\<close> returned true and
  1, after a diagnostic, when it returned false.
\<close>

definition report :: "fault + bool \<times> converter \<times> event list \<Rightarrow> fault + int \<times> event list" where
  "report r =
     (case r of
        Inl f \<Rightarrow> Inl f
      | Inr (True, conv, tr) \<Rightarrow> Inr (0, tr)
      | Inr (False, conv, tr) \<Rightarrow> Inr (1, tr @ [Cerr ConversionFailed]))"

text \<open>
  \<^verbatim>\<open>main\<close>, on \<^verbatim>\<open>argv\<close> as a list (\<^verbatim>\<open>argc\<close> is its length). The result is the exit status
  and the events of the run.
\<close>

definition main :: "opencv \<Rightarrow> string list \<Rightarrow> fault + int \<times> event list" where
  "main cv argv =
     (if length argv < 3 then Inr (1, [])
      else
        (let inputPath = argv ! 1;
             outputPath = argv ! 2
         in case (if 4 \<le> length argv then atoi (argv ! 3) else Inr DEFAULT_ASCII_WIDTH) of
              Inl f \<Rightarrow> Inl f
            | Inr asciiWidth \<Rightarrow>
                if asciiWidth < MIN_ASCII_WIDTH \<or> asciiWidth > MAX_ASCII_WIDTH
                then Inr (1, [Cerr WidthOutOfRange])
                else report (convertToColorASCII cv new_converter inputPath outputPath
                               asciiWidth 1)))"

subsection \<open>Reading arguments and traces\<close>

text \<open>
  The value of a string of decimal digits, and the two shapes of argument \<^verbatim>\<open>atoi\<close>
  tells apart: one that starts with digits, and one in which, after the white space and
  the sign that \<^verbatim>\<open>atoi\<close> skips, no digit follows. A numeric argument is a non-empty string
  of digits with nothing else.
\<close>

definition decimal :: "string \<Rightarrow> int" where
  "decimal ds = foldl (\<lambda>v c. 10 * v + digit_value c) 0 ds"

definition all_digits :: "string \<Rightarrow> bool" where
  "all_digits ds = (ds \<noteq> [] \<and> list_all isdigit ds)"

definition starts_with_digit :: "string \<Rightarrow> bool" where
  "starts_with_digit s = (case s of [] \<Rightarrow> False | c # cs \<Rightarrow> isdigit c)"

definition no_leading_digits :: "string \<Rightarrow> bool" where
  "no_leading_digits s =
     (case dropWhile isspace s of
        [] \<Rightarrow> True
      | c # cs \<Rightarrow>
          if c = CHR ''-'' \<or> c = CHR ''+'' then \<not> starts_with_digit cs
          else \<not> isdigit c)"

text \<open>The frames handed to \<^verbatim>\<open>writer.write\<close>, the \<^verbatim>\<open>putText\<close> calls and the sizes asked of
  \<^verbatim>\<open>cv::resize\<close>, each in the order of the trace; and whether a trace touches a file.\<close>

fun written_frames :: "event list \<Rightarrow> mat list" where
  "written_frames [] = []"
| "written_frames (WriterWrite m # tr) = m # written_frames tr"
| "written_frames (e # tr) = written_frames tr"

fun draw_calls :: "event list \<Rightarrow> (string \<times> point \<times> scalar) list" where
  "draw_calls [] = []"
| "draw_calls (PutText t p c # tr) = (t, p, c) # draw_calls tr"
| "draw_calls (e # tr) = draw_calls tr"

fun grid_sizes :: "event list \<Rightarrow> size list" where
  "grid_sizes [] = []"
| "grid_sizes (Resize sz # tr) = sz # grid_sizes tr"
| "grid_sizes (e # tr) = grid_sizes tr"

text \<open>
  The event of trying one candidate encoder, the events of one round of the main loop
  that produced the canvas and \<^verbatim>\<open>putText\<close> calls \<open>out\<close>, and the ramp positions of the
  glyphs a trace draws.
\<close>

definition attempt :: "string \<Rightarrow> real \<Rightarrow> size \<Rightarrow> int list \<Rightarrow> event" where
  "attempt outputPath fps frameSize codec = WriterOpen outputPath (codec ! 0) fps frameSize"

definition frame_events :: "int \<Rightarrow> int \<Rightarrow> mat \<times> event list \<Rightarrow> event list" where
  "frame_events asciiWidth asciiHeight out =
     (case out of (asciiFrame, calls) \<Rightarrow>
        [CapRead, Resize (asciiWidth, asciiHeight)] @ calls @ [WriterWrite asciiFrame])"

definition glyph_indices :: "string \<Rightarrow> event list \<Rightarrow> nat list" where
  "glyph_indices ramp tr = map (\<lambda>d. length (takeWhile (\<lambda>g. [g] \<noteq> fst d) ramp)) (draw_calls tr)"

text \<open>A list of events in which no frame is written and no resize is asked for.\<close>

definition only_draws :: "event list \<Rightarrow> bool" where
  "only_draws calls = (written_frames calls = [] \<and> grid_sizes calls = [])"

fun opens_file :: "event \<Rightarrow> bool" where
  "opens_file (CapOpen path) = True"
| "opens_file (WriterOpen path codec fps sz) = True"
| "opens_file e = False"

subsection \<open>The spec's grid height\<close>

text \<open>
  The spec's words: \<open>asciiHeight = floor(asciiWidth \<times> originalHeight / originalWidth \<times> 0.5)\<close>,
  evaluated over the rationals.
\<close>

definition asciiHeight_spec :: "int \<Rightarrow> int \<Rightarrow> int \<Rightarrow> int" where
  "asciiHeight_spec asciiWidth originalHeight originalWidth =
     \<lfloor>(of_int asciiWidth :: rat) * of_int originalHeight / of_int originalWidth * (1 / 2)\<rfloor>"

subsection \<open>The spec's rasteriser\<close>

text \<open>
  The spec's words for one cell at column \<open>x\<close> and row \<open>y\<close> of a grid: the selected glyph
  is drawn at pixel origin \<open>(x \<times> cellWidth, (y + 1) \<times> cellHeight - verticalTrim)\<close> in the
  cell's own colour, with the default cell of 6 by 12 pixels and a trim of 2; and for a
  grid: the cells row by row. The selected glyph is the one the glyph mapper selects for
  the brightness of the cell: the brightness is the luminance of the cell's colour as the
  program computes it, and the index is that of the clamped brightness, with the product
  rounded to a double.
\<close>

definition cell_brightness :: "mat \<Rightarrow> nat \<Rightarrow> nat \<Rightarrow> real" where
  "cell_brightness grid y x =
     (case pixel_at grid y x of (blue, green, red) \<Rightarrow>
        luminance (real (unat red)) (real (unat green)) (real (unat blue)))"

definition cell_index_spec :: "string \<Rightarrow> mat \<Rightarrow> nat \<Rightarrow> nat \<Rightarrow> nat" where
  "cell_index_spec ramp grid y x =
     nat (glyphIndex_binary64 (length ramp) (clamp_unit_spec (cell_brightness grid y x)))"

definition cell_draw_spec :: "string \<Rightarrow> mat \<Rightarrow> nat \<Rightarrow> nat \<Rightarrow> string \<times> point \<times> scalar" where
  "cell_draw_spec ramp grid y x =
     (case pixel_at grid y x of (blue, green, red) \<Rightarrow>
        ([ramp ! cell_index_spec ramp grid y x],
         (int x * 6, (int y + 1) * 12 - 2),
         (real (unat blue), real (unat green), real (unat red))))"

definition grid_draws_spec :: "string \<Rightarrow> mat \<Rightarrow> (string \<times> point \<times> scalar) list" where
  "grid_draws_spec ramp grid =
     concat (map (\<lambda>y. map (\<lambda>x. cell_draw_spec ramp grid y x) [0..<cols grid]) [0..<rows grid])"

text \<open>
  What is assumed of OpenCV where a property depends on it: \<^verbatim>\<open>cv::putText\<close> draws into
  the image it is given and keeps its size, and \<^verbatim>\<open>cv::resize\<close> returns an image of the
  size it was asked for.
\<close>

definition putText_in_place :: "opencv \<Rightarrow> bool" where
  "putText_in_place cv =
     (\<forall>img t org fontScale c.
        rows (cv_putText cv img t org fontScale c) = rows img
      \<and> cols (cv_putText cv img t org fontScale c) = cols img)"

definition resize_to_size :: "opencv \<Rightarrow> bool" where
  "resize_to_size cv =
     (\<forall>src w h dst. cv_resize cv src (w, h) = Some dst \<longrightarrow> int (cols dst) = w \<and> int (rows dst) = h)"

text \<open>One \<^verbatim>\<open>putText\<close> call of the rasteriser, and a pixel that a call leaves as it was.\<close>

definition put_glyph :: "opencv \<Rightarrow> mat \<Rightarrow> string \<times> point \<times> scalar \<Rightarrow> mat" where
  "put_glyph cv img d = (case d of (t, org, c) \<Rightarrow> cv_putText cv img t org ASCII_FONT_SIZE c)"

definition call_of :: "string \<times> point \<times> scalar \<Rightarrow> event" where
  "call_of d = (case d of (t, org, c) \<Rightarrow> PutText t org c)"

definition untouched_by :: "opencv \<Rightarrow> string \<times> point \<times> scalar \<Rightarrow> nat \<Rightarrow> nat \<Rightarrow> bool" where
  "untouched_by cv d py px = (\<forall>img. pixel_at (put_glyph cv img d) py px = pixel_at img py px)"

text \<open>
  The frames a run processes are those before the first empty one. What a run draws:
  for each frame in turn, the draws of its grid. The canvas of a grid is the black canvas
  of 12 rows and 6 columns of pixels per cell after the draws of the grid.
\<close>

definition processed :: "mat list \<Rightarrow> mat list" where
  "processed frames = takeWhile (\<lambda>frame. \<not> mat_empty frame) frames"

definition run_draws_spec ::
  "opencv \<Rightarrow> string \<Rightarrow> int \<Rightarrow> int \<Rightarrow> mat list \<Rightarrow> (string \<times> point \<times> scalar) list" where
  "run_draws_spec cv ramp asciiWidth asciiHeight frames =
     concat (map (\<lambda>frame. case cv_resize cv frame (asciiWidth, asciiHeight) of
                            None \<Rightarrow> []
                          | Some grid \<Rightarrow> grid_draws_spec ramp grid) frames)"

definition canvas_spec :: "opencv \<Rightarrow> string \<Rightarrow> mat \<Rightarrow> mat" where
  "canvas_spec cv ramp grid =
     foldl (put_glyph cv) (black_mat (rows grid * 12) (cols grid * 6)) (grid_draws_spec ramp grid)"

subsection \<open>An example installation\<close>

text \<open>
  A concrete OpenCV for running the model: \<^verbatim>\<open>in.mp4\<close> is a 4 by 4 video of two frames,
  \<^verbatim>\<open>empty.mp4\<close> a 1920 by 1080 video without frames, and no other input opens;
  \<open>demo_grid\<close> is a resized frame of three cells; the
  writer opens \<^verbatim>\<open>out.mp4\<close> for the \<^verbatim>\<open>avc1\<close> encoder only; resizing samples the nearest
  pixel and fails on an empty size; drawing a text paints the pixel at its origin.
\<close>

definition demo_frame :: "nat \<Rightarrow> mat" where
  "demo_frame k =
     \<lparr>rows = 4, cols = 4,
      pixel_at = (\<lambda>y x. (word_of_nat (60 * x), word_of_nat (60 * y), word_of_nat (100 * k)))\<rparr>"

definition demo_grid :: mat where
  "demo_grid =
     \<lparr>rows = 1, cols = 3,
      pixel_at = (\<lambda>y x. if x = 0 then (0, 0, 100) else if x = 1 then (120, 0, 100)
                         else (9, 140, 6))\<rparr>"

definition demo_capture :: capture where
  "demo_capture =
     \<lparr>cap_fps = 25, cap_frame_count = 2, cap_frame_width = 4, cap_frame_height = 4,
      cap_pending = [demo_frame 1, demo_frame 2]\<rparr>"

definition empty_capture :: capture where
  "empty_capture =
     \<lparr>cap_fps = 30, cap_frame_count = 0, cap_frame_width = 1920, cap_frame_height = 1080,
      cap_pending = []\<rparr>"

definition demo_resize :: "mat \<Rightarrow> size \<Rightarrow> mat option" where
  "demo_resize src sz =
     (case sz of (w, h) \<Rightarrow>
        if w \<le> 0 \<or> h \<le> 0 then None
        else Some \<lparr>rows = nat h, cols = nat w,
                   pixel_at = (\<lambda>y x. pixel_at src (y * rows src div nat h)
                                                  (x * cols src div nat w))\<rparr>)"

definition demo_putText :: "mat \<Rightarrow> string \<Rightarrow> point \<Rightarrow> real \<Rightarrow> scalar \<Rightarrow> mat" where
  "demo_putText img text org fontScale color =
     (case org of (px, py) \<Rightarrow>
      (case color of (c0, c1, c2) \<Rightarrow>
        if 0 \<le> px \<and> px < int (cols img) \<and> 0 \<le> py \<and> py < int (rows img)
        then img\<lparr>pixel_at :=
                   (\<lambda>y x. if y = nat py \<and> x = nat px
                           then (word_of_int \<lfloor>c0\<rfloor>, word_of_int \<lfloor>c1\<rfloor>, word_of_int \<lfloor>c2\<rfloor>)
                           else pixel_at img y x)\<rparr>
        else img))"

definition demo_cv :: opencv where
  "demo_cv =
     \<lparr>capture_open =
        (\<lambda>path. if path = ''in.mp4'' then Some demo_capture
                else if path = ''empty.mp4'' then Some empty_capture
                else None),
      writer_open =
        (\<lambda>path codec fps sz.
           path = ''out.mp4'' \<and> codec = fourcc CHR ''a'' CHR ''v'' CHR ''c'' CHR ''1''),
      cv_resize = demo_resize,
      cv_putText = demo_putText\<rparr>"

text \<open>A second installation: every encoder is available for every path, and drawing a
  text leaves the image as it is.\<close>

definition demo_cv2 :: opencv where
  "demo_cv2 =
     \<lparr>capture_open = (\<lambda>path. if path = ''copy.mp4'' then Some demo_capture else None),
      writer_open = (\<lambda>path codec fps sz. True),
      cv_resize = demo_resize,
      cv_putText = (\<lambda>img t org fontScale c. img)\<rparr>"

section \<open>Verification\<close>

subsection \<open>Rounding to binary64\<close>

lemma round_ties_even_of_int: "round_ties_even (of_int n) = n"
  by (simp add: round_ties_even_def)

lemma round_ties_even_bounds: "\<lfloor>y\<rfloor> \<le> round_ties_even y \<and> round_ties_even y \<le> \<lfloor>y\<rfloor> + 1"
  by (simp add: round_ties_even_def)

lemma round_ties_even_mono:
  assumes "x \<le> y"
  shows "round_ties_even x \<le> round_ties_even y"
proof (cases "\<lfloor>x\<rfloor> = \<lfloor>y\<rfloor>")
  case True
  from assms have "x - of_int \<lfloor>x\<rfloor> \<le> y - of_int \<lfloor>x\<rfloor>" by simp
  then show ?thesis
    unfolding round_ties_even_def True [symmetric] by (simp add: True)
next
  case False
  with assms have "\<lfloor>x\<rfloor> < \<lfloor>y\<rfloor>" using floor_mono [OF assms] by linarith
  then have "\<lfloor>x\<rfloor> + 1 \<le> \<lfloor>y\<rfloor>" by simp
  with round_ties_even_bounds [of x] round_ties_even_bounds [of y] show ?thesis by linarith
qed

lemma round_ties_even_nonneg: "0 \<le> y \<Longrightarrow> 0 \<le> round_ties_even y"
  using round_ties_even_mono [of 0 y] round_ties_even_of_int [of 0] by simp

lemma pow2_less_imp_less:
  assumes "(2::real) powi d < 2 powi e"
  shows "d < e"
proof (rule ccontr)
  assume "\<not> d < e"
  then have "e \<le> d" by simp
  then have "(2::real) powi e \<le> 2 powi d" by (rule power_int_increasing) simp
  with assms show False by simp
qed

lemma pow2_split: "(2::real) powi k * 2 powi (e - k) = 2 powi e"
proof -
  have "(2::real) powi (k + (e - k)) = 2 powi k * 2 powi (e - k)"
    by (rule power_int_add) simp
  then show ?thesis by simp
qed

lemma binade_set_finite:
  "finite (insert (- 1022) {e \<in> {- 1022..1023::int}. (2::real) powi e \<le> a})"
proof -
  have "{e \<in> {- 1022..1023::int}. (2::real) powi e \<le> a} \<subseteq> {- 1022..1023}" by blast
  then have "finite {e \<in> {- 1022..1023::int}. (2::real) powi e \<le> a}"
    by (rule finite_subset) (rule finite_atLeastAtMost_int)
  then show ?thesis by (rule finite.insertI)
qed

lemma binade_in_set:
  "binade x \<in> insert (- 1022) {e \<in> {- 1022..1023}. (2::real) powi e \<le> \<bar>x\<bar>}"
  unfolding binade_def by (rule Max_in) (rule binade_set_finite, blast)

lemma binade_range: "- 1022 \<le> binade x \<and> binade x \<le> 1023"
  using binade_in_set [of x] by auto

lemma binade_lower:
  assumes "- 1022 < binade x"
  shows "2 powi (binade x) \<le> \<bar>x\<bar>"
  using binade_in_set [of x] assms by auto

lemma binade_ge:
  assumes "- 1022 \<le> d" and "d \<le> 1023" and "2 powi d \<le> \<bar>x\<bar>"
  shows "d \<le> binade x"
  unfolding binade_def
proof (rule Max_ge)
  show "finite (insert (- 1022) {e \<in> {- 1022..1023}. (2::real) powi e \<le> \<bar>x\<bar>})"
    by (rule binade_set_finite)
  show "d \<in> insert (- 1022) {e \<in> {- 1022..1023}. (2::real) powi e \<le> \<bar>x\<bar>}"
    using assms by simp
qed

lemma binade_upper:
  assumes "binade x < 1023"
  shows "\<bar>x\<bar> < 2 powi (binade x + 1)"
proof (rule ccontr)
  assume "\<not> \<bar>x\<bar> < 2 powi (binade x + 1)"
  then have "2 powi (binade x + 1) \<le> \<bar>x\<bar>" by simp
  moreover have "- 1022 \<le> binade x + 1" "binade x + 1 \<le> 1023"
    using binade_range [of x] assms by simp_all
  ultimately have "binade x + 1 \<le> binade x" by (intro binade_ge)
  then show False by simp
qed

lemma binade_mono:
  assumes "\<bar>x\<bar> \<le> \<bar>y\<bar>"
  shows "binade x \<le> binade y"
  unfolding binade_def
proof (rule Max_mono)
  show "insert (- 1022) {e \<in> {- 1022..1023}. (2::real) powi e \<le> \<bar>x\<bar>}
          \<subseteq> insert (- 1022) {e \<in> {- 1022..1023}. (2::real) powi e \<le> \<bar>y\<bar>}"
    using assms by auto
  show "insert (- 1022) {e \<in> {- 1022..1023}. (2::real) powi e \<le> \<bar>x\<bar>} \<noteq> {}" by simp
  show "finite (insert (- 1022) {e \<in> {- 1022..1023}. (2::real) powi e \<le> \<bar>y\<bar>})"
    by (rule binade_set_finite)
qed

lemma binade_eq:
  assumes "- 1022 \<le> e" and "e \<le> 1023" and "2 powi e \<le> \<bar>x\<bar>" and "\<bar>x\<bar> < 2 powi (e + 1)"
  shows "binade x = e"
proof (rule antisym)
  show "e \<le> binade x" using assms(1,2,3) by (rule binade_ge)
  show "binade x \<le> e"
  proof (cases "binade x = - 1022")
    case True
    with assms(1) show ?thesis by simp
  next
    case False
    with binade_range [of x] have "- 1022 < binade x" by simp
    then have "2 powi (binade x) \<le> \<bar>x\<bar>" by (rule binade_lower)
    with assms(4) have "(2::real) powi (binade x) < 2 powi (e + 1)" by simp
    then have "binade x < e + 1" by (rule pow2_less_imp_less)
    then show ?thesis by simp
  qed
qed

text \<open>The value of \<open>binary64\<close> at a number whose binade is known, and at zero.\<close>

lemma binary64_at:
  assumes "- 1022 \<le> e" and "e \<le> 1023" and "2 powi e \<le> \<bar>x\<bar>" and "\<bar>x\<bar> < 2 powi (e + 1)"
  shows "binary64 x = of_int (round_ties_even (x / 2 powi (e - 52))) * 2 powi (e - 52)"
  by (simp only: binary64_def binade_eq [OF assms])

lemma binary64_zero: "binary64 0 = 0"
  by (simp add: binary64_def round_ties_even_def)

text \<open>Rounding keeps the sign and the order of non-negative numbers.\<close>

lemma binary64_nonneg:
  assumes "0 \<le> x"
  shows "0 \<le> binary64 x"
proof -
  have "0 \<le> x / 2 powi (binade x - 52)" using assms by simp
  then have "0 \<le> round_ties_even (x / 2 powi (binade x - 52))" by (rule round_ties_even_nonneg)
  then show ?thesis by (simp add: binary64_def)
qed

lemma binary64_mono_nonneg:
  assumes "0 \<le> x" and "x \<le> y"
  shows "binary64 x \<le> binary64 y"
proof (cases "binade x = binade y")
  case True
  let ?u = "(2::real) powi (binade y - 52)"
  have "x / ?u \<le> y / ?u" using assms(2) by (simp add: divide_right_mono)
  then have "round_ties_even (x / ?u) \<le> round_ties_even (y / ?u)" by (rule round_ties_even_mono)
  then have "of_int (round_ties_even (x / ?u)) * ?u \<le> of_int (round_ties_even (y / ?u)) * ?u"
    by (simp add: mult_right_mono)
  then show ?thesis by (simp add: binary64_def True)
next
  case False
  have "\<bar>x\<bar> \<le> \<bar>y\<bar>" using assms by simp
  then have "binade x \<le> binade y" by (rule binade_mono)
  with False have less: "binade x < binade y" by simp
  let ?ex = "binade x" and ?ey = "binade y"
  let ?ux = "(2::real) powi (?ex - 52)" and ?uy = "(2::real) powi (?ey - 52)"
  have "?ex < 1023" using less binade_range [of y] by simp
  then have "\<bar>x\<bar> < 2 powi (?ex + 1)" by (rule binade_upper)
  then have "x \<le> 2 powi (?ex + 1)" using assms(1) by simp
  then have "x / ?ux \<le> 2 powi (?ex + 1) / ?ux" by (simp add: divide_right_mono)
  also have "(2::real) powi (?ex + 1) / ?ux = 2 powi 53"
    by (simp flip: power_int_diff)
  also have "(2::real) powi 53 = of_int (2 ^ 53)" by simp
  finally have "round_ties_even (x / ?ux) \<le> round_ties_even (of_int (2 ^ 53))"
    by (rule round_ties_even_mono)
  then have "round_ties_even (x / ?ux) \<le> 2 ^ 53" by (simp only: round_ties_even_of_int)
  then have "of_int (round_ties_even (x / ?ux)) \<le> (2::real) ^ 53"
    by (metis of_int_le_iff of_int_numeral of_int_power)
  then have "of_int (round_ties_even (x / ?ux)) * ?ux \<le> 2 ^ 53 * ?ux"
    by (simp add: mult_right_mono)
  also have "(2::real) ^ 53 * ?ux = 2 powi 53 * 2 powi (?ex - 52)" by simp
  also have "\<dots> = 2 powi (?ex + 1)" using pow2_split [of 53 "?ex + 1"] by simp
  finally have upper: "binary64 x \<le> 2 powi (?ex + 1)" by (simp only: binary64_def)
  have "- 1022 < ?ey" using less binade_range [of x] by simp
  then have "2 powi ?ey \<le> \<bar>y\<bar>" by (rule binade_lower)
  moreover have "0 \<le> y" using assms by simp
  ultimately have "2 powi ?ey \<le> y" by simp
  then have "2 powi ?ey / ?uy \<le> y / ?uy" by (simp add: divide_right_mono)
  moreover have "(2::real) powi ?ey / ?uy = of_int (2 ^ 52)"
    by (simp flip: power_int_diff)
  ultimately have "round_ties_even (of_int (2 ^ 52)) \<le> round_ties_even (y / ?uy)"
    by (simp only: round_ties_even_mono)
  then have "2 ^ 52 \<le> round_ties_even (y / ?uy)" by (simp only: round_ties_even_of_int)
  then have "(2::real) ^ 52 \<le> of_int (round_ties_even (y / ?uy))"
    by (metis of_int_le_iff of_int_numeral of_int_power)
  then have "2 ^ 52 * ?uy \<le> of_int (round_ties_even (y / ?uy)) * ?uy"
    by (simp add: mult_right_mono)
  moreover have "(2::real) ^ 52 * ?uy = 2 powi 52 * 2 powi (?ey - 52)" by simp
  moreover have "(2::real) powi 52 * 2 powi (?ey - 52) = 2 powi ?ey" by (rule pow2_split)
  ultimately have lower: "2 powi ?ey \<le> binary64 y" by (simp only: binary64_def)
  have "(2::real) powi (?ex + 1) \<le> 2 powi ?ey"
    using less by (intro power_int_increasing) simp_all
  with upper lower show ?thesis by linarith
qed

text \<open>The integers up to \<open>2 ^ 53\<close> are doubles.\<close>

lemma binary64_of_int:
  assumes "0 \<le> n" and "n \<le> 2 ^ 53"
  shows "binary64 (of_int n) = of_int n"
proof (cases "n = 0")
  case True
  then show ?thesis by (simp add: binary64_zero)
next
  case False
  let ?x = "real_of_int n"
  let ?e = "binade ?x"
  from False assms(1) have pos: "1 \<le> n" by simp
  then have "(2::real) powi 0 \<le> \<bar>?x\<bar>" by simp
  then have e0: "0 \<le> ?e" by (intro binade_ge) simp_all
  then have "2 powi ?e \<le> \<bar>?x\<bar>" by (intro binade_lower) simp
  then have low: "2 powi ?e \<le> ?x" using pos by simp
  have "?x \<le> of_int (2 ^ 53)" using assms(2) by (simp only: of_int_le_iff)
  then have up: "?x \<le> 2 powi 53" by simp
  have e53: "?e \<le> 53"
  proof (rule ccontr)
    assume "\<not> ?e \<le> 53"
    then have "54 \<le> ?e" by simp
    then have "(2::real) powi 54 \<le> 2 powi ?e" by (rule power_int_increasing) simp
    with low up show False by simp
  qed
  show ?thesis
  proof (cases "?e \<le> 52")
    case True
    let ?k = "nat (52 - ?e)"
    have "(2::real) powi (?e - 52) * 2 powi (52 - ?e) = 2 powi 0"
      using power_int_add [of "2::real" "?e - 52" "52 - ?e"] by simp
    then have inv: "(2::real) powi (?e - 52) * 2 ^ ?k = 1"
      using True by (simp add: power_int_nonneg_exp)
    have "?x / 2 powi (?e - 52) = ?x * 2 ^ ?k"
      using inv by (simp add: field_simps)
    also have "\<dots> = of_int (n * 2 ^ ?k)" by simp
    finally have "round_ties_even (?x / 2 powi (?e - 52)) = n * 2 ^ ?k"
      by (simp only: round_ties_even_of_int)
    then have "binary64 ?x = of_int (n * 2 ^ ?k) * 2 powi (?e - 52)"
      by (simp only: binary64_def)
    also have "\<dots> = ?x * (2 powi (?e - 52) * 2 ^ ?k)" by simp
    finally show ?thesis by (simp only: inv mult_1_right)
  next
    case False
    with e53 have e: "?e = 53" by simp
    from low have "2 powi 53 \<le> ?x" by (simp only: e)
    with up have x: "?x = of_int (2 ^ 53)" by simp
    have p: "(2::real) powi (?e - 52) = 2" by (simp only: e) simp
    have "?x / 2 = of_int (2 ^ 52)" by (simp only: x) simp
    then have "round_ties_even (?x / 2) = 2 ^ 52"
      by (simp only: round_ties_even_of_int)
    then have "binary64 ?x = of_int (2 ^ 52) * 2"
      by (simp only: binary64_def p)
    also have "\<dots> = of_int (2 ^ 53)" by simp
    finally show ?thesis by (simp only: x)
  qed
qed

lemma binary64_of_nat:
  assumes "m \<le> 2 ^ 53"
  shows "binary64 (real m) = real m"
proof -
  have "int m \<le> int (2 ^ 53)" using assms by (simp only: of_nat_le_iff)
  then have "int m \<le> 2 ^ 53" by simp
  then have "binary64 (of_int (int m)) = of_int (int m)"
    by (intro binary64_of_int) simp_all
  then show ?thesis by simp
qed

text \<open>Below \<open>2 ^ 52\<close> rounding moves the integer part by at most one, and never down.\<close>

lemma floor_binary64_near:
  assumes "0 \<le> x" and "x < 2 ^ 52"
  shows "\<lfloor>x\<rfloor> \<le> \<lfloor>binary64 x\<rfloor> \<and> \<lfloor>binary64 x\<rfloor> \<le> \<lfloor>x\<rfloor> + 1"
proof -
  let ?n = "\<lfloor>x\<rfloor>"
  have n0: "0 \<le> ?n" using assms(1) by simp
  have "?n < 2 ^ 52" using assms(2) by (simp add: floor_less_iff)
  then have n1: "?n \<le> 2 ^ 53" and n2: "?n + 1 \<le> 2 ^ 53" by simp_all
  have "0 \<le> real_of_int ?n" and "real_of_int ?n \<le> x" using n0 by simp_all
  then have "binary64 (of_int ?n) \<le> binary64 x" by (rule binary64_mono_nonneg)
  then have lo: "of_int ?n \<le> binary64 x" by (simp only: binary64_of_int [OF n0 n1])
  have "x \<le> of_int (?n + 1)" by linarith
  with assms(1) have "binary64 x \<le> binary64 (of_int (?n + 1))" by (rule binary64_mono_nonneg)
  moreover have "0 \<le> ?n + 1" using n0 by simp
  ultimately have hi: "binary64 x \<le> of_int (?n + 1)"
    using binary64_of_int [OF _ n2] by simp
  from lo have "?n \<le> \<lfloor>binary64 x\<rfloor>" by (simp add: le_floor_iff)
  moreover from hi have "\<lfloor>binary64 x\<rfloor> \<le> ?n + 1" by (metis floor_mono floor_of_int)
  ultimately show ?thesis by simp
qed

subsection \<open>The glyph mapper\<close>

lemma length_ASCII_CHARS: "length ASCII_CHARS = 70"
  by (simp add: ASCII_CHARS_def)

lemma distinct_ASCII_CHARS: "distinct ASCII_CHARS"
  by (simp add: ASCII_CHARS_def)

lemma length_minus_one_eq:
  assumes "1 \<le> length s" and "length s \<le> 2 ^ 31"
  shows "length_minus_one s = length s - 1"
proof -
  obtain k where k: "length s = Suc k"
    using assms(1) by (cases "length s") simp_all
  have "k < (2::nat) ^ 31" using assms(2) k by simp
  also have "(2::nat) ^ 31 < 2 ^ 64" by simp
  finally have small: "k < (2::nat) ^ 64" .
  have "length s + 2 ^ 64 - 1 = k + 2 ^ 64" using k by simp
  then have "length_minus_one s = (k + 2 ^ 64) mod 2 ^ 64"
    by (simp only: length_minus_one_def)
  also have "\<dots> = k mod 2 ^ 64" by (rule mod_add_self2)
  also have "\<dots> = k" using small by (rule mod_less)
  finally show ?thesis using k by simp
qed

lemma size_to_int_small:
  assumes "n < 2 ^ 31"
  shows "size_to_int n = int n"
proof -
  have "int n < 2 ^ 31" using assms by (simp add: of_nat_less_numeral_power_cancel_iff)
  then have "int n mod 2 ^ 32 = int n" by simp
  with \<open>int n < 2 ^ 31\<close> show ?thesis by (simp add: size_to_int_def)
qed

lemma exact_brightness_bounds:
  fixes b :: real and m :: nat
  shows "0 \<le> \<lfloor>max 0 (min 1 b) * real m\<rfloor>" and "\<lfloor>max 0 (min 1 b) * real m\<rfloor> \<le> int m"
proof -
  let ?c = "max 0 (min 1 b)"
  have c: "0 \<le> ?c" "?c \<le> 1" by simp_all
  then have "0 \<le> ?c * real m" by simp
  then show "0 \<le> \<lfloor>?c * real m\<rfloor>" by simp
  have "?c * real m \<le> 1 * real m"
    using c by (intro mult_right_mono) simp_all
  then have "\<lfloor>?c * real m\<rfloor> \<le> \<lfloor>real m\<rfloor>" by (intro floor_mono) simp
  then show "\<lfloor>?c * real m\<rfloor> \<le> int m" by simp
qed

lemma scaled_brightness_bounds:
  fixes b :: real and m :: nat
  assumes "m \<le> 2 ^ 53"
  shows "0 \<le> \<lfloor>binary64 (max 0 (min 1 b) * real m)\<rfloor>"
    and "\<lfloor>binary64 (max 0 (min 1 b) * real m)\<rfloor> \<le> int m"
proof -
  let ?c = "max 0 (min 1 b)"
  have c: "0 \<le> ?c" "?c \<le> 1" by simp_all
  then have nonneg: "0 \<le> ?c * real m" by simp
  then have "0 \<le> binary64 (?c * real m)" by (rule binary64_nonneg)
  then show "0 \<le> \<lfloor>binary64 (?c * real m)\<rfloor>" by simp
  have "?c * real m \<le> 1 * real m"
    using c by (intro mult_right_mono) simp_all
  then have "?c * real m \<le> real m" by simp
  with nonneg have "binary64 (?c * real m) \<le> binary64 (real m)" by (rule binary64_mono_nonneg)
  then have "binary64 (?c * real m) \<le> real m" by (simp only: binary64_of_nat [OF assms])
  then have "\<lfloor>binary64 (?c * real m)\<rfloor> \<le> \<lfloor>real m\<rfloor>" by (rule floor_mono)
  then show "\<lfloor>binary64 (?c * real m)\<rfloor> \<le> int m" by simp
qed

lemma ramp_size_is_double:
  assumes "length cs \<le> 2 ^ 31"
  shows "length cs - 1 \<le> 2 ^ 53"
proof -
  have "length cs - 1 \<le> length cs" by simp
  also note assms
  also have "(2::nat) ^ 31 \<le> 2 ^ 53" by simp
  finally show ?thesis .
qed

lemma glyph_index_value:
  assumes "1 \<le> length cs" and "length cs \<le> 2 ^ 31"
  shows "glyph_index cs b = Inr \<lfloor>binary64 (max 0 (min 1 b) * real (length cs - 1))\<rfloor>"
proof -
  let ?m = "length cs - 1"
  let ?p = "binary64 (max 0 (min 1 b) * real ?m)"
  let ?i = "\<lfloor>?p\<rfloor>"
  have lm: "length_minus_one cs = ?m"
    using assms by (rule length_minus_one_eq)
  have "?m < 2 ^ 31" using assms by simp
  then have si: "size_to_int ?m = int ?m" by (rule size_to_int_small)
  note dbl = ramp_size_is_double [OF assms(2)]
  have conv: "binary64 (real ?m) = real ?m" using dbl by (rule binary64_of_nat)
  have lo: "0 \<le> ?i" and hi: "?i \<le> int ?m"
    by (rule scaled_brightness_bounds [OF dbl])+
  have "0 \<le> max 0 (min 1 b) * real ?m" by simp
  then have nonneg: "0 \<le> ?p" by (rule binary64_nonneg)
  have tr: "truncate_real ?p = ?i"
    using nonneg by (simp only: truncate_real_def if_True)
  have "int ?m \<le> INT_MAX" using \<open>?m < 2 ^ 31\<close> by (simp add: INT_MAX_def)
  with lo hi have "INT_MIN \<le> ?i \<and> ?i \<le> INT_MAX"
    unfolding INT_MIN_def by linarith
  then have "fits_int ?i" by (simp only: fits_int_def)
  with tr have "double_to_int ?p = Inr ?i"
    by (simp only: double_to_int_def if_True)
  moreover have "max 0 (min (int ?m) ?i) = ?i" using lo hi by simp
  ultimately show ?thesis
    by (simp only: glyph_index_def Let_def lm si conv sum.case)
qed

lemma string_at_in_range:
  assumes "0 \<le> i" and "i < int (length s)"
  shows "string_at s i = Inr (s ! nat i)"
  using assms by (simp add: string_at_def)

lemma getASCIIChar_value:
  assumes "1 \<le> length cs" and "length cs \<le> 2 ^ 31"
  shows "getASCIIChar cs b
           = Inr (cs ! nat \<lfloor>binary64 (max 0 (min 1 b) * real (length cs - 1))\<rfloor>)"
proof -
  let ?i = "\<lfloor>binary64 (max 0 (min 1 b) * real (length cs - 1))\<rfloor>"
  have "0 \<le> ?i" and "?i \<le> int (length cs - 1)"
    by (rule scaled_brightness_bounds [OF ramp_size_is_double [OF assms(2)]])+
  moreover have "int (length cs - 1) < int (length cs)" using assms(1) by simp
  ultimately have "string_at cs ?i = Inr (cs ! nat ?i)"
    by (intro string_at_in_range) simp_all
  then show ?thesis
    by (simp only: getASCIIChar_def glyph_index_value [OF assms] sum.case)
qed

lemma glyphIndex_spec_unit:
  assumes "1 \<le> N" and "0 \<le> b" and "b \<le> 1"
  shows "glyphIndex_spec N b = \<lfloor>b * real (N - 1)\<rfloor>"
proof -
  have m: "real N - 1 = real (N - 1)" using assms(1) by (simp add: of_nat_diff)
  have "0 \<le> \<lfloor>max 0 (min 1 b) * real (N - 1)\<rfloor>"
    and "\<lfloor>max 0 (min 1 b) * real (N - 1)\<rfloor> \<le> int (N - 1)"
    by (rule exact_brightness_bounds)+
  moreover have "max 0 (min 1 b) = b" using assms by simp
  moreover have "int (N - 1) = int N - 1" using assms(1) by simp
  ultimately have "0 \<le> \<lfloor>b * real (N - 1)\<rfloor>" and "\<lfloor>b * real (N - 1)\<rfloor> \<le> int N - 1"
    by simp_all
  then show ?thesis by (simp add: glyphIndex_spec_def clamp_spec_def m)
qed

lemma glyphIndex_binary64_unit:
  assumes "1 \<le> N" and "N - 1 \<le> 2 ^ 53" and "0 \<le> b" and "b \<le> 1"
  shows "glyphIndex_binary64 N b = \<lfloor>binary64 (b * real (N - 1))\<rfloor>"
proof -
  have m: "real N - 1 = real (N - 1)" using assms(1) by (simp add: of_nat_diff)
  have "0 \<le> \<lfloor>binary64 (max 0 (min 1 b) * real (N - 1))\<rfloor>"
    and "\<lfloor>binary64 (max 0 (min 1 b) * real (N - 1))\<rfloor> \<le> int (N - 1)"
    by (rule scaled_brightness_bounds [OF assms(2)])+
  moreover have "max 0 (min 1 b) = b" using assms by simp
  moreover have "int (N - 1) = int N - 1" using assms(1) by simp
  ultimately have "0 \<le> \<lfloor>binary64 (b * real (N - 1))\<rfloor>"
    and "\<lfloor>binary64 (b * real (N - 1))\<rfloor> \<le> int N - 1"
    by simp_all
  then show ?thesis by (simp add: glyphIndex_binary64_def clamp_spec_def m)
qed

lemma glyphIndex_binary64_near:
  assumes "1 \<le> N" and "N \<le> 2 ^ 31" and "0 \<le> b" and "b \<le> 1"
  shows "glyphIndex_spec N b \<le> glyphIndex_binary64 N b
       \<and> glyphIndex_binary64 N b \<le> glyphIndex_spec N b + 1"
proof -
  let ?x = "b * real (N - 1)"
  have "N - 1 \<le> N" by simp
  also note assms(2)
  finally have n31: "N - 1 \<le> 2 ^ 31" .
  also have "(2::nat) ^ 31 \<le> 2 ^ 53" by simp
  finally have dbl: "N - 1 \<le> 2 ^ 53" .
  have "real (N - 1) \<le> real ((2::nat) ^ 31)" using n31 by (simp only: of_nat_le_iff)
  then have r31: "real (N - 1) \<le> 2 ^ 31" by simp
  have "?x \<le> 1 * real (N - 1)" using assms(4) by (intro mult_right_mono) simp_all
  with r31 have "?x \<le> 2 ^ 31" by simp
  also have "(2::real) ^ 31 < 2 ^ 52" by simp
  finally have small: "?x < 2 ^ 52" .
  have "0 \<le> ?x" using assms(3) by simp
  from floor_binary64_near [OF this small]
  show ?thesis
    by (simp only: glyphIndex_spec_unit [OF assms(1,3,4)]
        glyphIndex_binary64_unit [OF assms(1) dbl assms(3,4)])
qed

lemma RED_WEIGHT_value: "RED_WEIGHT = 5386305154335113 / 18014398509481984"
  unfolding RED_WEIGHT_def by (simp add: binary64_at [of "- 2"] round_ties_even_def)

lemma GREEN_WEIGHT_value: "GREEN_WEIGHT = 2643612981266481 / 4503599627370496"
  unfolding GREEN_WEIGHT_def by (simp add: binary64_at [of "- 1"] round_ties_even_def)

lemma BLUE_WEIGHT_value: "BLUE_WEIGHT = 8214565720323785 / 72057594037927936"
  unfolding BLUE_WEIGHT_def by (simp add: binary64_at [of "- 4"] round_ties_even_def)

lemma luminance_dark_red: "luminance 100 0 0 = 2112276531111809 / 18014398509481984"
proof -
  have a: "binary64 (5386305154335113 / 18014398509481984 * 100) = 4208050901824307 / 140737488355328"
    by (simp add: binary64_at [of 4] round_ties_even_def)
  have b: "binary64 (2643612981266481 / 4503599627370496 * 0) = 0"
    by (simp add: binary64_zero)
  have c: "binary64 (8214565720323785 / 72057594037927936 * 0) = 0"
    by (simp add: binary64_zero)
  have s: "binary64 (4208050901824307 / 140737488355328 + 0) = 4208050901824307 / 140737488355328"
    by (simp add: binary64_at [of 4] round_ties_even_def)
  have t: "binary64 (4208050901824307 / 140737488355328 + 0) = 4208050901824307 / 140737488355328"
    by (simp add: binary64_at [of 4] round_ties_even_def)
  have d: "binary64 (4208050901824307 / 140737488355328 / 255) = 2112276531111809 / 18014398509481984"
    by (simp add: binary64_at [of "- 4"] round_ties_even_def)
  show ?thesis
    by (simp only: luminance_def RED_WEIGHT_value GREEN_WEIGHT_value BLUE_WEIGHT_value a b c s t d)
qed

lemma index_dark_red: "glyphIndex_binary64 70 (clamp_unit_spec (2112276531111809 / 18014398509481984)) = 8"
  by (simp add: glyphIndex_binary64_def clamp_spec_def clamp_unit_spec_def
        binary64_at [of 3] round_ties_even_def)

lemma luminance_purple: "luminance 100 0 120 = 6157392055240979 / 36028797018963968"
proof -
  have a: "binary64 (5386305154335113 / 18014398509481984 * 100) = 4208050901824307 / 140737488355328"
    by (simp add: binary64_at [of 4] round_ties_even_def)
  have b: "binary64 (2643612981266481 / 4503599627370496 * 0) = 0"
    by (simp add: binary64_zero)
  have c: "binary64 (8214565720323785 / 72057594037927936 * 120) = 1925288840700887 / 140737488355328"
    by (simp add: binary64_at [of 3] round_ties_even_def)
  have s: "binary64 (4208050901824307 / 140737488355328 + 0) = 4208050901824307 / 140737488355328"
    by (simp add: binary64_at [of 4] round_ties_even_def)
  have t: "binary64 (4208050901824307 / 140737488355328 + 1925288840700887 / 140737488355328) = 3066669871262597 / 70368744177664"
    by (simp add: binary64_at [of 5] round_ties_even_def)
  have d: "binary64 (3066669871262597 / 70368744177664 / 255) = 6157392055240979 / 36028797018963968"
    by (simp add: binary64_at [of "- 3"] round_ties_even_def)
  show ?thesis
    by (simp only: luminance_def RED_WEIGHT_value GREEN_WEIGHT_value BLUE_WEIGHT_value a b c s t d)
qed

lemma index_purple: "glyphIndex_binary64 70 (clamp_unit_spec (6157392055240979 / 36028797018963968)) = 11"
  by (simp add: glyphIndex_binary64_def clamp_spec_def clamp_unit_spec_def
        binary64_at [of 3] round_ties_even_def)

lemma luminance_red: "luminance 200 0 0 = 2112276531111809 / 9007199254740992"
proof -
  have a: "binary64 (5386305154335113 / 18014398509481984 * 200) = 4208050901824307 / 70368744177664"
    by (simp add: binary64_at [of 5] round_ties_even_def)
  have b: "binary64 (2643612981266481 / 4503599627370496 * 0) = 0"
    by (simp add: binary64_zero)
  have c: "binary64 (8214565720323785 / 72057594037927936 * 0) = 0"
    by (simp add: binary64_zero)
  have s: "binary64 (4208050901824307 / 70368744177664 + 0) = 4208050901824307 / 70368744177664"
    by (simp add: binary64_at [of 5] round_ties_even_def)
  have t: "binary64 (4208050901824307 / 70368744177664 + 0) = 4208050901824307 / 70368744177664"
    by (simp add: binary64_at [of 5] round_ties_even_def)
  have d: "binary64 (4208050901824307 / 70368744177664 / 255) = 2112276531111809 / 9007199254740992"
    by (simp add: binary64_at [of "- 3"] round_ties_even_def)
  show ?thesis
    by (simp only: luminance_def RED_WEIGHT_value GREEN_WEIGHT_value BLUE_WEIGHT_value a b c s t d)
qed

lemma index_red: "glyphIndex_binary64 70 (clamp_unit_spec (2112276531111809 / 9007199254740992)) = 16"
  by (simp add: glyphIndex_binary64_def clamp_spec_def clamp_unit_spec_def
        binary64_at [of 4] round_ties_even_def)

lemma luminance_magenta: "luminance 200 0 120 = 2595486279366149 / 9007199254740992"
proof -
  have a: "binary64 (5386305154335113 / 18014398509481984 * 200) = 4208050901824307 / 70368744177664"
    by (simp add: binary64_at [of 5] round_ties_even_def)
  have b: "binary64 (2643612981266481 / 4503599627370496 * 0) = 0"
    by (simp add: binary64_zero)
  have c: "binary64 (8214565720323785 / 72057594037927936 * 120) = 1925288840700887 / 140737488355328"
    by (simp add: binary64_at [of 3] round_ties_even_def)
  have s: "binary64 (4208050901824307 / 70368744177664 + 0) = 4208050901824307 / 70368744177664"
    by (simp add: binary64_at [of 5] round_ties_even_def)
  have t: "binary64 (4208050901824307 / 70368744177664 + 1925288840700887 / 140737488355328) = 2585347661087375 / 35184372088832"
    by (simp add: binary64_at [of 6] round_ties_even_def)
  have d: "binary64 (2585347661087375 / 35184372088832 / 255) = 2595486279366149 / 9007199254740992"
    by (simp add: binary64_at [of "- 2"] round_ties_even_def)
  show ?thesis
    by (simp only: luminance_def RED_WEIGHT_value GREEN_WEIGHT_value BLUE_WEIGHT_value a b c s t d)
qed

lemma index_magenta: "glyphIndex_binary64 70 (clamp_unit_spec (2595486279366149 / 9007199254740992)) = 19"
  by (simp add: glyphIndex_binary64_def clamp_spec_def clamp_unit_spec_def
        binary64_at [of 4] round_ties_even_def)

lemma luminance_green: "luminance 6 140 9 = 1501199875790165 / 4503599627370496"
proof -
  have a: "binary64 (5386305154335113 / 18014398509481984 * 6) = 4039728865751335 / 2251799813685248"
    by (simp add: binary64_at [of 0] round_ties_even_def)
  have b: "binary64 (2643612981266481 / 4503599627370496 * 140) = 5782903396520427 / 70368744177664"
    by (simp add: binary64_at [of 6] round_ties_even_def)
  have c: "binary64 (8214565720323785 / 72057594037927936 * 9) = 4620693217682129 / 4503599627370496"
    by (simp add: binary64_at [of 0] round_ties_even_def)
  have s: "binary64 (4039728865751335 / 2251799813685248 + 5782903396520427 / 70368744177664) = 1477286230893789 / 17592186044416"
    by (simp add: binary64_at [of 6] round_ties_even_def)
  have t: "binary64 (1477286230893789 / 17592186044416 + 4620693217682129 / 4503599627370496) = 5981343255101439 / 70368744177664"
    by (simp add: binary64_at [of 6] round_ties_even_def)
  have d: "binary64 (5981343255101439 / 70368744177664 / 255) = 1501199875790165 / 4503599627370496"
    by (simp add: binary64_at [of "- 2"] round_ties_even_def)
  show ?thesis
    by (simp only: luminance_def RED_WEIGHT_value GREEN_WEIGHT_value BLUE_WEIGHT_value a b c s t d)
qed

lemma index_green: "glyphIndex_binary64 70 (clamp_unit_spec (1501199875790165 / 4503599627370496)) = 22"
  by (simp add: glyphIndex_binary64_def clamp_spec_def clamp_unit_spec_def
        binary64_at [of 4] round_ties_even_def)

lemma luminance_negative: "luminance (- 255) (- 255) (- 255) = - 1"
proof -
  have a: "binary64 (5386305154335113 / 18014398509481984 * (- 255)) = - (5365264899825991 / 70368744177664)"
    by (simp add: binary64_at [of 6] round_ties_even_def)
  have b: "binary64 (2643612981266481 / 4503599627370496 * (- 255)) = - (2633286368058409 / 17592186044416)"
    by (simp add: binary64_at [of 7] round_ties_even_def)
  have c: "binary64 (8214565720323785 / 72057594037927936 * (- 255)) = - (4091238786489385 / 140737488355328)"
    by (simp add: binary64_at [of 4] round_ties_even_def)
  have s: "binary64 (- (5365264899825991 / 70368744177664) + - (2633286368058409 / 17592186044416)) = - (3974602593014907 / 17592186044416)"
    by (simp add: binary64_at [of 7] round_ties_even_def)
  have t: "binary64 (- (3974602593014907 / 17592186044416) + - (4091238786489385 / 140737488355328)) = - 255"
    by (simp add: binary64_at [of 7] round_ties_even_def)
  have d: "binary64 (- 255 / 255) = - 1"
    by (simp add: binary64_at [of 0] round_ties_even_def)
  show ?thesis
    by (simp only: luminance_def RED_WEIGHT_value GREEN_WEIGHT_value BLUE_WEIGHT_value a b c s t d)
qed

text \<open>
  The double \<open>6004799503160661 / 2 ^ 54\<close> (in C notation \<^verbatim>\<open>0x1.5555555555555p-2\<close>) is the
  largest double below one third. Its product with 69 lies \<open>23 / 2 ^ 54\<close> below 23, which
  is less than half the distance \<open>2 ^ (- 48)\<close> between neighbouring doubles there, so the
  product rounds to 23.
\<close>

lemma third_is_double:
  "binary64 (6004799503160661 / 18014398509481984) = 6004799503160661 / 18014398509481984"
  by (simp add: binary64_at [of "- 2"] round_ties_even_def)

lemma third_scaled: "binary64 (6004799503160661 / 18014398509481984 * 69) = 23"
  by (simp add: binary64_at [of 4] round_ties_even_def)

lemma half_scaled: "binary64 (69 / 2) = 69 / 2"
  by (simp add: binary64_at [of 5] round_ties_even_def)

text \<open>
  Claim C1. For a ramp of \<open>N\<close> glyphs, \<open>2 \<le> N \<le> 2 ^ 31\<close> (so that \<open>N - 1\<close> is an \<^verbatim>\<open>int\<close>, the
  type of the index), and every brightness \<open>b\<close> in \<open>[0,1]\<close>, the index computed by
  \<^verbatim>\<open>getASCIIChar\<close> is \<open>clamp(floor(fl(b \<times> (N - 1))), 0, N - 1)\<close>, where \<open>fl\<close> rounds the product
  to the nearest double, and the glyph returned is the ramp's glyph at that index; this
  index is the spec's \<open>clamp(floor(b \<times> (N - 1)), 0, N - 1)\<close> or the one after it; the index
  is monotonically non-decreasing in \<open>b\<close>; brightness 0 gives index 0 and brightness 1
  gives index \<open>N - 1\<close>.
\<close>

theorem glyph_index_linear_monotone:
  assumes "2 \<le> length cs" and "length cs \<le> 2 ^ 31"
  shows "(\<forall>b. 0 \<le> b \<and> b \<le> 1 \<longrightarrow>
            glyph_index cs b = Inr (glyphIndex_binary64 (length cs) b)
          \<and> getASCIIChar cs b = Inr (cs ! nat (glyphIndex_binary64 (length cs) b))
          \<and> glyphIndex_spec (length cs) b \<le> glyphIndex_binary64 (length cs) b
          \<and> glyphIndex_binary64 (length cs) b \<le> glyphIndex_spec (length cs) b + 1)
       \<and> (\<forall>b b'. 0 \<le> b \<and> b \<le> b' \<and> b' \<le> 1 \<longrightarrow>
            (\<exists>i j. glyph_index cs b = Inr i \<and> glyph_index cs b' = Inr j \<and> i \<le> j))
       \<and> glyph_index cs 0 = Inr 0
       \<and> glyph_index cs 1 = Inr (int (length cs) - 1)"
proof -
  have len: "1 \<le> length cs" using assms(1) by simp
  note dbl = ramp_size_is_double [OF assms(2)]
  note gi = glyph_index_value [OF len assms(2)]
  note gc = getASCIIChar_value [OF len assms(2)]
  have unit: "max 0 (min 1 b) = b" if "0 \<le> b" "b \<le> 1" for b :: real
    using that by simp
  have eq: "glyph_index cs b = Inr (glyphIndex_binary64 (length cs) b)
          \<and> getASCIIChar cs b = Inr (cs ! nat (glyphIndex_binary64 (length cs) b))
          \<and> glyphIndex_spec (length cs) b \<le> glyphIndex_binary64 (length cs) b
          \<and> glyphIndex_binary64 (length cs) b \<le> glyphIndex_spec (length cs) b + 1"
    if "0 \<le> b" "b \<le> 1" for b
  proof -
    have "glyph_index cs b = Inr (glyphIndex_binary64 (length cs) b)"
      by (simp only: gi unit [OF that] glyphIndex_binary64_unit [OF len dbl that])
    moreover have "getASCIIChar cs b = Inr (cs ! nat (glyphIndex_binary64 (length cs) b))"
      by (simp only: gc unit [OF that] glyphIndex_binary64_unit [OF len dbl that])
    moreover note glyphIndex_binary64_near [OF len assms(2) that]
    ultimately show ?thesis by blast
  qed
  have mono: "\<exists>i j. glyph_index cs b = Inr i \<and> glyph_index cs b' = Inr j \<and> i \<le> j"
    if "0 \<le> b" "b \<le> b'" "b' \<le> 1" for b b'
  proof -
    have "0 \<le> b * real (length cs - 1)" using that(1) by simp
    moreover have "b * real (length cs - 1) \<le> b' * real (length cs - 1)"
      using that by (intro mult_right_mono) simp_all
    ultimately have "binary64 (b * real (length cs - 1)) \<le> binary64 (b' * real (length cs - 1))"
      by (rule binary64_mono_nonneg)
    then have "\<lfloor>binary64 (b * real (length cs - 1))\<rfloor> \<le> \<lfloor>binary64 (b' * real (length cs - 1))\<rfloor>"
      by (rule floor_mono)
    moreover have "max 0 (min 1 b) = b" "max 0 (min 1 b') = b'" using that by simp_all
    ultimately show ?thesis by (simp add: gi)
  qed
  have zero: "glyph_index cs 0 = Inr 0" by (simp add: gi binary64_zero)
  have "glyph_index cs 1 = Inr \<lfloor>binary64 (real (length cs - 1))\<rfloor>" by (simp add: gi)
  also have "binary64 (real (length cs - 1)) = real (length cs - 1)"
    using dbl by (rule binary64_of_nat)
  finally have one: "glyph_index cs 1 = Inr (int (length cs) - 1)"
    using len by simp
  from eq mono zero one show ?thesis by blast
qed

theorem glyph_index_linear_monotone_witness:
  "2 \<le> length ASCII_CHARS \<and> length ASCII_CHARS \<le> 2 ^ 31
   \<and> glyph_index ASCII_CHARS (1 / 2) = Inr 34
   \<and> getASCIIChar ASCII_CHARS (1 / 2) = Inr CHR ''x''
   \<and> glyphIndex_spec 70 (1 / 2) = 34
   \<and> glyph_index ASCII_CHARS 0 = Inr 0
   \<and> glyph_index ASCII_CHARS 1 = Inr 69"
proof -
  have l: "2 \<le> length ASCII_CHARS" and u: "length ASCII_CHARS \<le> 2 ^ 31"
    by (simp_all add: length_ASCII_CHARS)
  have half: "(0::real) \<le> 1 / 2 \<and> (1::real) / 2 \<le> 1" by simp
  have spec: "glyphIndex_spec 70 (1 / 2) = 34"
    by (simp add: glyphIndex_spec_def clamp_spec_def)
  have rounded: "glyphIndex_binary64 70 (1 / 2) = 34"
    by (simp add: glyphIndex_binary64_def clamp_spec_def half_scaled)
  have ch: "ASCII_CHARS ! 34 = CHR ''x''" by (simp add: ASCII_CHARS_def)
  from glyph_index_linear_monotone [OF l u] half spec rounded ch l u show ?thesis
    by (simp add: length_ASCII_CHARS)
qed

text \<open>
  Claim C1 as stated equates the index with \<open>clamp(floor(b \<times> (N - 1)), 0, N - 1)\<close> for every
  \<open>b\<close> in \<open>[0,1]\<close>. On the ramp of the program, at the largest double below one third, the
  product with 69 rounds to 23 before it is truncated: \<^verbatim>\<open>getASCIIChar\<close> computes index 23 and
  returns the glyph there, where the formula gives 22.
\<close>

theorem glyph_index_rounding_counterexample:
  "length ASCII_CHARS = 70
   \<and> (0::real) \<le> 6004799503160661 / 18014398509481984
   \<and> (6004799503160661::real) / 18014398509481984 \<le> 1
   \<and> binary64 (6004799503160661 / 18014398509481984) = 6004799503160661 / 18014398509481984
   \<and> glyph_index ASCII_CHARS (6004799503160661 / 18014398509481984) = Inr 23
   \<and> getASCIIChar ASCII_CHARS (6004799503160661 / 18014398509481984) = Inr CHR ''{''
   \<and> glyphIndex_spec 70 (6004799503160661 / 18014398509481984) = 22"
proof -
  have l: "1 \<le> length ASCII_CHARS" and u: "length ASCII_CHARS \<le> 2 ^ 31"
    by (simp_all add: length_ASCII_CHARS)
  have gi: "glyph_index ASCII_CHARS (6004799503160661 / 18014398509481984) = Inr 23"
    by (simp add: glyph_index_value [OF l u] length_ASCII_CHARS third_scaled [simplified])
  have ch: "ASCII_CHARS ! 23 = CHR ''{''" by (simp add: ASCII_CHARS_def)
  have gc: "getASCIIChar ASCII_CHARS (6004799503160661 / 18014398509481984) = Inr CHR ''{''"
    by (simp add: getASCIIChar_value [OF l u] length_ASCII_CHARS third_scaled [simplified] ch)
  have spec: "glyphIndex_spec 70 (6004799503160661 / 18014398509481984) = 22"
    by (simp add: glyphIndex_spec_def clamp_spec_def)
  from gi gc spec third_is_double show ?thesis by (simp add: length_ASCII_CHARS)
qed

text \<open>
  Claim C3. For every triple of components, also outside \<open>[0,255]\<close> and negative, the
  luminance \<open>(0.299 R + 0.587 G + 0.114 B) / 255\<close> put through
  \<open>clamp(v) = max(0, min(1, v))\<close> lies in \<open>[0,1]\<close>, and the glyph selection does not fail:
  \<^verbatim>\<open>getASCIIChar\<close> computes an index inside the ramp and returns the glyph there.
\<close>

theorem luminance_clamped_glyph_safe:
  assumes "1 \<le> length cs" and "length cs \<le> 2 ^ 31"
  shows "0 \<le> clamp_unit_spec (luminance r g b) \<and> clamp_unit_spec (luminance r g b) \<le> 1
       \<and> (\<exists>i. glyph_index cs (luminance r g b) = Inr i \<and> 0 \<le> i \<and> i < int (length cs)
              \<and> getASCIIChar cs (luminance r g b) = Inr (cs ! nat i))"
proof -
  let ?i = "\<lfloor>binary64 (max 0 (min 1 (luminance r g b)) * real (length cs - 1))\<rfloor>"
  have "0 \<le> ?i" and "?i \<le> int (length cs - 1)"
    by (rule scaled_brightness_bounds [OF ramp_size_is_double [OF assms(2)]])+
  moreover have "int (length cs - 1) < int (length cs)" using assms(1) by simp
  ultimately have "0 \<le> ?i \<and> ?i < int (length cs)" by linarith
  with glyph_index_value [OF assms] getASCIIChar_value [OF assms]
  have "\<exists>i. glyph_index cs (luminance r g b) = Inr i \<and> 0 \<le> i \<and> i < int (length cs)
              \<and> getASCIIChar cs (luminance r g b) = Inr (cs ! nat i)"
    by blast
  then show ?thesis by (simp add: clamp_unit_spec_def)
qed

theorem luminance_clamped_glyph_safe_witness:
  "1 \<le> length ASCII_CHARS \<and> length ASCII_CHARS \<le> 2 ^ 31
   \<and> luminance (- 255) (- 255) (- 255) = - 1
   \<and> clamp_unit_spec (luminance (- 255) (- 255) (- 255)) = 0
   \<and> (\<exists>i. glyph_index ASCII_CHARS (luminance (- 255) (- 255) (- 255)) = Inr i
          \<and> 0 \<le> i \<and> i < 70
          \<and> getASCIIChar ASCII_CHARS (luminance (- 255) (- 255) (- 255)) = Inr (ASCII_CHARS ! nat i))"
proof -
  have l: "1 \<le> length ASCII_CHARS" and u: "length ASCII_CHARS \<le> 2 ^ 31"
    by (simp_all add: length_ASCII_CHARS)
  note v = luminance_negative
  have c: "clamp_unit_spec (- 1) = 0" by (simp add: clamp_unit_spec_def)
  from luminance_clamped_glyph_safe [OF l u, of "- 255" "- 255" "- 255"] l u v c
  show ?thesis by (simp add: length_ASCII_CHARS)
qed

subsection \<open>The grid height\<close>

lemma sdiv_nonneg_pos:
  fixes p w :: int
  assumes "0 \<le> p" and "0 < w"
  shows "p sdiv w = p div w"
proof (cases "p = 0")
  case True
  then show ?thesis by (simp add: signed_divide_int_def)
next
  case False
  with assms have "sgn p = 1" "sgn w = 1" "\<bar>p\<bar> = p" "\<bar>w\<bar> = w" by simp_all
  then show ?thesis by (simp add: signed_divide_int_def)
qed

lemma truncate_half_nonneg:
  fixes q :: int
  assumes "0 \<le> q"
  shows "truncate_real (real_of_int q * 0.5) = q div 2"
proof -
  have "0 \<le> real_of_int q * 0.5" using assms by simp
  then have "truncate_real (real_of_int q * 0.5) = \<lfloor>real_of_int q * 0.5\<rfloor>"
    by (simp only: truncate_real_def if_True)
  also have "\<dots> = \<lfloor>real_of_int q / real_of_int 2\<rfloor>" by simp
  also have "\<dots> = q div 2" by (rule floor_divide_of_int_eq)
  finally show ?thesis .
qed

lemma asciiHeight_spec_div:
  assumes "0 < w"
  shows "asciiHeight_spec a h w = (a * h) div w div 2"
proof -
  have "(of_int a :: rat) * of_int h / of_int w * (1 / 2) = of_int (a * h) / of_int (w * 2)"
    by simp
  then have "asciiHeight_spec a h w = \<lfloor>(of_int (a * h) :: rat) / of_int (w * 2)\<rfloor>"
    by (simp only: asciiHeight_spec_def)
  also have "\<dots> = (a * h) div (w * 2)" by (rule floor_divide_of_int_eq)
  also have "\<dots> = (a * h) div w div 2" by (rule zdiv_zmult2_eq) simp
  finally show ?thesis .
qed

lemma grid_height_nonneg:
  assumes w: "0 < w" and p: "0 \<le> a * h" and fit: "a * h \<le> INT_MAX"
  shows "grid_height a h w = Inr ((a * h) div w div 2)"
proof -
  let ?p = "a * h"
  let ?q = "?p div w"
  have fp: "fits_int ?p" using p fit by (simp add: fits_int_def INT_MIN_def)
  have q0: "0 \<le> ?q" using p w by (simp add: pos_imp_zdiv_nonneg_iff)
  have "?p div w \<le> ?p div 1" using p w by (intro zdiv_mono2) simp_all
  then have "?q \<le> ?p" by simp
  with q0 fit have fq: "fits_int ?q" by (simp add: fits_int_def INT_MIN_def)
  have sd: "?p sdiv w = ?q" using p w by (rule sdiv_nonneg_pos)
  have d: "int_div ?p w = Inr ?q" using w fq by (simp add: int_div_def sd)
  have h0: "0 \<le> ?q div 2" using q0 by simp
  have "?q div 2 \<le> ?q div 1" using q0 by (intro zdiv_mono2) simp_all
  then have "?q div 2 \<le> ?q" by simp
  with h0 \<open>?q \<le> ?p\<close> fit have fh: "fits_int (?q div 2)"
    by (simp add: fits_int_def INT_MIN_def)
  have c: "double_to_int (real_of_int ?q * 0.5) = Inr (?q div 2)"
    using fh by (simp only: double_to_int_def truncate_half_nonneg [OF q0] if_True)
  show ?thesis
    using fp by (simp only: grid_height_def int_mul_def if_True sum.case d c)
qed

text \<open>
  Claim C2, as amended. For \<open>originalWidth > 0\<close>, \<open>originalHeight > 0\<close> and
  \<open>asciiWidth \<ge> 0\<close> whose product \<open>asciiWidth \<times> originalHeight\<close> fits an \<^verbatim>\<open>int\<close>, the grid
  height the code computes (integer division, then halving and truncation) equals the
  spec's \<open>floor(asciiWidth \<times> originalHeight / originalWidth \<times> 0.5)\<close> over the rationals;
  for width 1920, height 1080 and \<open>asciiWidth = 150\<close> it is 42.
\<close>

theorem grid_height_matches_spec:
  assumes "0 < originalWidth" and "0 < originalHeight" and "0 \<le> asciiWidth"
    and "asciiWidth * originalHeight \<le> INT_MAX"
  shows "grid_height asciiWidth originalHeight originalWidth
           = Inr (asciiHeight_spec asciiWidth originalHeight originalWidth)
       \<and> grid_height 150 1080 1920 = Inr 42"
proof -
  have p: "0 \<le> asciiWidth * originalHeight" using assms(2,3) by simp
  have "grid_height asciiWidth originalHeight originalWidth
           = Inr (asciiHeight_spec asciiWidth originalHeight originalWidth)"
    by (simp only: grid_height_nonneg [OF assms(1) p assms(4)] asciiHeight_spec_div [OF assms(1)])
  moreover have "grid_height 150 1080 1920 = Inr ((150 * 1080) div 1920 div 2)"
    by (rule grid_height_nonneg) (simp_all add: INT_MAX_def)
  ultimately show ?thesis by simp
qed

theorem grid_height_matches_spec_witness:
  "(0::int) < 1920 \<and> (0::int) < 1080 \<and> (0::int) \<le> 150 \<and> (150::int) * 1080 \<le> INT_MAX
   \<and> grid_height 150 1080 1920 = Inr (asciiHeight_spec 150 1080 1920)
   \<and> asciiHeight_spec 150 1080 1920 = 42"
proof -
  have h: "(0::int) < 1920" "(0::int) < 1080" "(0::int) \<le> 150" "(150::int) * 1080 \<le> INT_MAX"
    by (simp_all add: INT_MAX_def)
  have "asciiHeight_spec 150 1080 1920 = 42" by (simp add: asciiHeight_spec_div)
  with grid_height_matches_spec [OF h] h show ?thesis by simp
qed

text \<open>
  Claim C2 as stated, for every \<open>asciiWidth\<close>, fails for a negative one: both the
  integer division and the cast truncate towards zero, where the spec's floor rounds down.
  With \<open>asciiWidth = -1\<close> on a 1 by 1 video the code computes 0 and the spec's formula -1.
\<close>

theorem grid_height_negative_width_counterexample:
  "(0::int) < 1 \<and> grid_height (- 1) 1 1 = Inr 0 \<and> asciiHeight_spec (- 1) 1 1 = - 1"
proof -
  have "\<lceil>- (1 / 2) :: real\<rceil> = 0" by (rule ceiling_unique) simp_all
  then have "truncate_real (real_of_int (- 1) * 0.5) = 0"
    by (simp add: truncate_real_def)
  then have "grid_height (- 1) 1 1 = Inr 0"
    by (simp add: grid_height_def int_mul_def int_div_def double_to_int_def
        fits_int_def INT_MIN_def INT_MAX_def signed_divide_int_def)
  moreover have "asciiHeight_spec (- 1) 1 1 = - 1" by (simp add: asciiHeight_spec_div)
  ultimately show ?thesis by simp
qed

subsection \<open>The command line\<close>

lemma isdigit_cases:
  "isdigit c \<longleftrightarrow> c = CHR ''0'' \<or> c = CHR ''1'' \<or> c = CHR ''2'' \<or> c = CHR ''3'' \<or> c = CHR ''4''
     \<or> c = CHR ''5'' \<or> c = CHR ''6'' \<or> c = CHR ''7'' \<or> c = CHR ''8'' \<or> c = CHR ''9''"
  by (simp add: isdigit_def)

lemma isdigit_not_isspace: "isdigit c \<Longrightarrow> \<not> isspace c"
  by (auto simp: isdigit_cases isspace_def)

lemma isdigit_not_sign: "isdigit c \<Longrightarrow> c \<noteq> CHR ''-'' \<and> c \<noteq> CHR ''+''"
  by (auto simp: isdigit_cases)

lemma digits_value_stop: "\<not> starts_with_digit rest \<Longrightarrow> digits_value acc rest = acc"
  by (cases rest) (simp_all add: starts_with_digit_def)

lemma digits_value_prefix:
  assumes "list_all isdigit ds" and "\<not> starts_with_digit rest"
  shows "digits_value acc (ds @ rest) = foldl (\<lambda>v c. 10 * v + digit_value c) acc ds"
  using assms
proof (induction ds arbitrary: acc)
  case Nil
  then show ?case by (simp add: digits_value_stop)
next
  case (Cons d ds)
  then show ?case by simp
qed

lemma atoi_leading_digits:
  assumes "all_digits ds" and "\<not> starts_with_digit rest" and "fits_int (decimal ds)"
  shows "atoi (ds @ rest) = Inr (decimal ds)"
proof -
  from assms(1) obtain d ds' where ds: "ds = d # ds'" and d: "isdigit d" and rest: "list_all isdigit ds'"
    by (cases ds) (simp_all add: all_digits_def)
  have nosp: "\<not> isspace d" using d by (rule isdigit_not_isspace)
  have nosign: "d \<noteq> CHR ''-''" "d \<noteq> CHR ''+''" using isdigit_not_sign [OF d] by simp_all
  have "list_all isdigit ds" using ds d rest by simp
  then have "digits_value 0 (ds @ rest) = decimal ds"
    using assms(2) unfolding decimal_def by (rule digits_value_prefix)
  then have "digits_value 0 (d # ds' @ rest) = decimal ds" by (simp add: ds)
  with nosp nosign assms(3) show ?thesis
    by (simp add: atoi_def ds del: digits_value.simps)
qed

lemma atoi_no_leading_digits:
  assumes "no_leading_digits s"
  shows "atoi s = Inr 0"
proof (cases "dropWhile isspace s")
  case Nil
  show ?thesis
    unfolding atoi_def Nil by (simp add: fits_int_def INT_MIN_def INT_MAX_def)
next
  case (Cons c cs)
  show ?thesis
  proof (cases "c = CHR ''-'' \<or> c = CHR ''+''")
    case True
    with assms Cons have "\<not> starts_with_digit cs" by (simp add: no_leading_digits_def)
    then have "digits_value 0 cs = 0" by (rule digits_value_stop)
    with True show ?thesis
      unfolding atoi_def Cons by (auto simp: fits_int_def INT_MIN_def INT_MAX_def)
  next
    case False
    with assms Cons have "\<not> isdigit c" by (simp add: no_leading_digits_def)
    with False show ?thesis
      unfolding atoi_def Cons by (simp add: fits_int_def INT_MIN_def INT_MAX_def)
  qed
qed

lemma main_with_width:
  "main cv (a0 # inputPath # outputPath # w # extra) =
     (case atoi w of
        Inl f \<Rightarrow> Inl f
      | Inr asciiWidth \<Rightarrow>
          if asciiWidth < 20 \<or> asciiWidth > 300 then Inr (1, [Cerr WidthOutOfRange])
          else report (convertToColorASCII cv new_converter inputPath outputPath asciiWidth 1))"
  by (simp add: main_def MIN_ASCII_WIDTH_def MAX_ASCII_WIDTH_def split: sum.split)

lemma fits_int_small: "\<bar>k\<bar> \<le> 300 \<Longrightarrow> fits_int k"
  unfolding fits_int_def INT_MIN_def INT_MAX_def by linarith

lemma atoi_150abc: "atoi ''150abc'' = Inr 150"
  by (simp add: atoi_def isspace_def isdigit_def digit_value_def fits_int_def INT_MIN_def INT_MAX_def)

lemma decimal_150: "decimal ''150'' = 150"
  by (simp add: decimal_def digit_value_def)

lemma atoi_19: "atoi ''19'' = Inr 19"
  by (simp add: atoi_def isspace_def isdigit_def digit_value_def fits_int_def INT_MIN_def INT_MAX_def)

lemma atoi_301: "atoi ''301'' = Inr 301"
  by (simp add: atoi_def isspace_def isdigit_def digit_value_def fits_int_def INT_MIN_def INT_MAX_def)

lemma atoi_20: "atoi ''20'' = Inr 20"
  by (simp add: atoi_def isspace_def isdigit_def digit_value_def fits_int_def INT_MIN_def INT_MAX_def)

lemma atoi_300: "atoi ''300'' = Inr 300"
  by (simp add: atoi_def isspace_def isdigit_def digit_value_def fits_int_def INT_MIN_def INT_MAX_def)

lemma main_rejects:
  assumes "atoi w = Inr n" and "n < 20 \<or> 300 < n"
  shows "main cv (a0 # inputPath # outputPath # w # extra) = Inr (1, [Cerr WidthOutOfRange])"
  using assms by (simp add: main_with_width)

lemma main_accepts:
  assumes "atoi w = Inr n" and "20 \<le> n" and "n \<le> 300"
  shows "main cv (a0 # inputPath # outputPath # w # extra)
           = report (convertToColorASCII cv new_converter inputPath outputPath n 1)"
  using assms by (simp add: main_with_width)

text \<open>
  Claim C5, as amended. The width argument is checked against \<open>[20,300]\<close> before any file
  is opened: \<^verbatim>\<open>19\<close> and \<^verbatim>\<open>301\<close> end the run with exit status 1 and nothing but the
  diagnostic, while with \<^verbatim>\<open>20\<close> and \<^verbatim>\<open>300\<close> the conversion is started with that width. An
  argument that \<^verbatim>\<open>atoi\<close> reads as a value outside \<open>[20,300]\<close>, in particular one without
  leading digits (read as 0), is rejected in the same way. No event of a rejected run
  opens a file.
\<close>

theorem width_validated_before_opening:
  "main cv [a0, inputPath, outputPath, ''19''] = Inr (1, [Cerr WidthOutOfRange])
   \<and> main cv [a0, inputPath, outputPath, ''301''] = Inr (1, [Cerr WidthOutOfRange])
   \<and> main cv [a0, inputPath, outputPath, ''20'']
       = report (convertToColorASCII cv new_converter inputPath outputPath 20 1)
   \<and> main cv [a0, inputPath, outputPath, ''300'']
       = report (convertToColorASCII cv new_converter inputPath outputPath 300 1)
   \<and> (atoi w = Inr n \<and> (n < 20 \<or> 300 < n) \<longrightarrow>
        main cv (a0 # inputPath # outputPath # w # extra) = Inr (1, [Cerr WidthOutOfRange]))
   \<and> (no_leading_digits w \<longrightarrow>
        main cv (a0 # inputPath # outputPath # w # extra) = Inr (1, [Cerr WidthOutOfRange]))
   \<and> \<not> list_ex opens_file [Cerr WidthOutOfRange]"
proof -
  have "main cv [a0, inputPath, outputPath, ''19''] = Inr (1, [Cerr WidthOutOfRange])"
    by (rule main_rejects [OF atoi_19]) simp
  moreover have "main cv [a0, inputPath, outputPath, ''301''] = Inr (1, [Cerr WidthOutOfRange])"
    by (rule main_rejects [OF atoi_301]) simp
  moreover have "main cv [a0, inputPath, outputPath, ''20'']
       = report (convertToColorASCII cv new_converter inputPath outputPath 20 1)"
    by (rule main_accepts [OF atoi_20]) simp_all
  moreover have "main cv [a0, inputPath, outputPath, ''300'']
       = report (convertToColorASCII cv new_converter inputPath outputPath 300 1)"
    by (rule main_accepts [OF atoi_300]) simp_all
  moreover have "atoi w = Inr n \<and> (n < 20 \<or> 300 < n) \<longrightarrow>
        main cv (a0 # inputPath # outputPath # w # extra) = Inr (1, [Cerr WidthOutOfRange])"
    using main_rejects by blast
  moreover have "no_leading_digits w \<longrightarrow>
        main cv (a0 # inputPath # outputPath # w # extra) = Inr (1, [Cerr WidthOutOfRange])"
    using main_rejects [OF atoi_no_leading_digits, of w] by simp
  moreover have "\<not> list_ex opens_file [Cerr WidthOutOfRange]" by simp
  ultimately show ?thesis by blast
qed

theorem width_validated_before_opening_witness:
  "atoi ''1000'' = Inr 1000 \<and> ((1000::int) < 20 \<or> (300::int) < 1000)
   \<and> no_leading_digits ''wide''
   \<and> main demo_cv [''miku'', ''in.mp4'', ''out.mp4'', ''1000''] = Inr (1, [Cerr WidthOutOfRange])
   \<and> main demo_cv [''miku'', ''in.mp4'', ''out.mp4'', ''wide''] = Inr (1, [Cerr WidthOutOfRange])"
proof -
  have a: "atoi ''1000'' = Inr 1000"
    by (simp add: atoi_def isspace_def isdigit_def digit_value_def fits_int_def INT_MIN_def INT_MAX_def)
  have n: "no_leading_digits ''wide''"
    by (simp add: no_leading_digits_def isspace_def isdigit_def)
  from width_validated_before_opening
         [of demo_cv "''miku''" "''in.mp4''" "''out.mp4''" "''1000''" 1000 "[]"]
       width_validated_before_opening
         [of demo_cv "''miku''" "''in.mp4''" "''out.mp4''" "''wide''" 0 "[]"]
       a n
  show ?thesis by simp
qed

text \<open>
  Claim C10. The width argument is read by \<^verbatim>\<open>atoi\<close>: when it starts with decimal digits
  whose value is in \<open>[20,300]\<close>, whatever follows the digits, it is accepted with that value
  and the conversion is started with it (\<^verbatim>\<open>150abc\<close> is accepted as 150); when no digit
  follows the white space and sign that \<^verbatim>\<open>atoi\<close> skips, it is read as 0 and the run ends
  with exit status 1 in the range check.
\<close>

theorem atoi_prefix_accepted:
  "(all_digits ds \<and> \<not> starts_with_digit rest \<and> 20 \<le> decimal ds \<and> decimal ds \<le> 300 \<longrightarrow>
      atoi (ds @ rest) = Inr (decimal ds)
    \<and> main cv [a0, inputPath, outputPath, ds @ rest]
        = report (convertToColorASCII cv new_converter inputPath outputPath (decimal ds) 1))
   \<and> main cv [a0, inputPath, outputPath, ''150abc'']
        = report (convertToColorASCII cv new_converter inputPath outputPath 150 1)
   \<and> (no_leading_digits s \<longrightarrow>
        atoi s = Inr 0
      \<and> main cv [a0, inputPath, outputPath, s] = Inr (1, [Cerr WidthOutOfRange]))"
proof -
  have first: "atoi (ds @ rest) = Inr (decimal ds)
    \<and> main cv [a0, inputPath, outputPath, ds @ rest]
        = report (convertToColorASCII cv new_converter inputPath outputPath (decimal ds) 1)"
    if "all_digits ds" "\<not> starts_with_digit rest" "20 \<le> decimal ds" "decimal ds \<le> 300"
  proof -
    have "fits_int (decimal ds)" using that(3,4) by (intro fits_int_small) simp
    then have a: "atoi (ds @ rest) = Inr (decimal ds)"
      using that(1,2) by (intro atoi_leading_digits)
    from main_accepts [OF a that(3,4)] a show ?thesis by simp
  qed
  have second: "main cv [a0, inputPath, outputPath, ''150abc'']
        = report (convertToColorASCII cv new_converter inputPath outputPath 150 1)"
    by (rule main_accepts [OF atoi_150abc]) simp_all
  have third: "atoi s = Inr 0
      \<and> main cv [a0, inputPath, outputPath, s] = Inr (1, [Cerr WidthOutOfRange])"
    if "no_leading_digits s"
    using main_rejects [OF atoi_no_leading_digits [OF that]] atoi_no_leading_digits [OF that]
    by simp
  from first second third show ?thesis by blast
qed

theorem atoi_prefix_accepted_witness:
  "all_digits ''150'' \<and> \<not> starts_with_digit ''abc'' \<and> 20 \<le> decimal ''150'' \<and> decimal ''150'' \<le> 300
   \<and> no_leading_digits ''abc''
   \<and> atoi ''150abc'' = Inr 150
   \<and> atoi ''abc'' = Inr 0
   \<and> main demo_cv [''miku'', ''in.mp4'', ''out.mp4'', ''abc''] = Inr (1, [Cerr WidthOutOfRange])"
proof -
  have d: "all_digits ''150''" by (simp add: all_digits_def isdigit_def)
  have r: "\<not> starts_with_digit ''abc''" by (simp add: starts_with_digit_def isdigit_def)
  have n: "no_leading_digits ''abc''" by (simp add: no_leading_digits_def isspace_def isdigit_def)
  from atoi_prefix_accepted
         [of "''150''" "''abc''" demo_cv "''miku''" "''in.mp4''" "''out.mp4''" "''abc''"]
       d r n decimal_150
  show ?thesis by simp
qed

text \<open>
  Claim C9. The \<open>quality\<close> parameter of \<^verbatim>\<open>convertToColorASCII\<close> has no effect: the result is
  the same for any two values of it. \<^verbatim>\<open>main\<close> ignores every argument after the width and
  always calls \<^verbatim>\<open>convertToColorASCII\<close> with quality 1, with or without a width argument.
\<close>

theorem quality_is_ignored:
  "convertToColorASCII cv conv inputPath outputPath asciiWidth quality
     = convertToColorASCII cv conv inputPath outputPath asciiWidth quality'
   \<and> main cv (a0 # inputPath # outputPath # w # a4 # extra) = main cv [a0, inputPath, outputPath, w]
   \<and> main cv [a0, inputPath, outputPath, w] =
       (case atoi w of
          Inl f \<Rightarrow> Inl f
        | Inr n \<Rightarrow>
            if n < 20 \<or> n > 300 then Inr (1, [Cerr WidthOutOfRange])
            else report (convertToColorASCII cv new_converter inputPath outputPath n 1))
   \<and> main cv [a0, inputPath, outputPath]
       = report (convertToColorASCII cv new_converter inputPath outputPath 80 1)"
proof -
  have "convertToColorASCII cv conv inputPath outputPath asciiWidth quality
     = convertToColorASCII cv conv inputPath outputPath asciiWidth quality'"
    by (simp only: convertToColorASCII_def)
  moreover have "main cv (a0 # inputPath # outputPath # w # a4 # extra)
      = main cv [a0, inputPath, outputPath, w]"
    by (simp only: main_with_width)
  moreover note main_with_width [of cv a0 inputPath outputPath w "[]"]
  moreover have "main cv [a0, inputPath, outputPath]
       = report (convertToColorASCII cv new_converter inputPath outputPath 80 1)"
    by (simp add: main_def DEFAULT_ASCII_WIDTH_def MIN_ASCII_WIDTH_def MAX_ASCII_WIDTH_def)
  ultimately show ?thesis by simp
qed

subsection \<open>The rasteriser\<close>

lemma for_each_Inr:
  assumes "\<And>i s. i \<in> set js \<Longrightarrow> body i s = Inr (step i s)"
  shows "for_each body js s = Inr (fold step js s)"
  using assms by (induction js arbitrary: s) simp_all

lemma clamp_unit_spec_range: "0 \<le> clamp_unit_spec v \<and> clamp_unit_spec v \<le> 1"
  by (simp add: clamp_unit_spec_def)

lemma getASCIIChar_spec:
  assumes "1 \<le> length cs" and "length cs \<le> 2 ^ 31"
  shows "getASCIIChar cs v = Inr (cs ! nat (glyphIndex_binary64 (length cs) (clamp_unit_spec v)))"
proof -
  have "glyphIndex_binary64 (length cs) (clamp_unit_spec v)
          = \<lfloor>binary64 (clamp_unit_spec v * real (length cs - 1))\<rfloor>"
    using assms(1) ramp_size_is_double [OF assms(2)] clamp_unit_spec_range [of v]
    by (intro glyphIndex_binary64_unit) simp_all
  then show ?thesis
    by (simp only: getASCIIChar_value [OF assms] clamp_unit_spec_def)
qed

lemma selected_glyph:
  assumes "1 \<le> length cs" and "length cs \<le> 2 ^ 31"
  shows "getASCIIChar cs (cell_brightness grid y x) = Inr (cs ! cell_index_spec cs grid y x)"
  by (simp only: getASCIIChar_spec [OF assms] cell_index_spec_def)

lemma draw_cell_value:
  assumes "1 \<le> length (currentCharset conv)" and "length (currentCharset conv) \<le> 2 ^ 31"
  shows "draw_cell cv conv grid y x (img, calls)
           = Inr (put_glyph cv img (cell_draw_spec (currentCharset conv) grid y x),
                  calls @ [call_of (cell_draw_spec (currentCharset conv) grid y x)])"
proof -
  obtain p0 p1 p2 where px: "pixel_at grid y x = (p0, p1, p2)"
    by (cases "pixel_at grid y x") auto
  show ?thesis
    by (simp add: draw_cell_def cell_draw_spec_def cell_index_spec_def cell_brightness_def px
        getASCIIChar_spec [OF assms] put_glyph_def call_of_def ASCII_CHAR_WIDTH_def
        ASCII_CHAR_HEIGHT_def Let_def)
qed

lemma fold_put_glyph:
  "fold (\<lambda>i st. (put_glyph cv (fst st) (g i), snd st @ [call_of (g i)])) js (img, calls)
     = (foldl (put_glyph cv) img (map g js), calls @ map call_of (map g js))"
  by (induction js arbitrary: img calls) simp_all

lemma fold_rows:
  "fold (\<lambda>y st. (foldl (put_glyph cv) (fst st) (r y), snd st @ map call_of (r y))) ys (img, calls)
     = (foldl (put_glyph cv) img (concat (map r ys)), calls @ map call_of (concat (map r ys)))"
  by (induction ys arbitrary: img calls) simp_all

lemma row_loop_value:
  assumes "1 \<le> length (currentCharset conv)" and "length (currentCharset conv) \<le> 2 ^ 31"
  shows "for_each (\<lambda>x. draw_cell cv conv grid y x) xs st
           = Inr (foldl (put_glyph cv) (fst st) (map (cell_draw_spec (currentCharset conv) grid y) xs),
                  snd st @ map call_of (map (cell_draw_spec (currentCharset conv) grid y) xs))"
proof -
  let ?g = "cell_draw_spec (currentCharset conv) grid y"
  let ?step = "\<lambda>i st. (put_glyph cv (fst st) (?g i), snd st @ [call_of (?g i)])"
  have "for_each (\<lambda>x. draw_cell cv conv grid y x) xs st = Inr (fold ?step xs st)"
  proof (rule for_each_Inr)
    fix i s
    show "draw_cell cv conv grid y i s = Inr (?step i s)"
      using draw_cell_value [OF assms, of cv grid y i "fst s" "snd s"] by simp
  qed
  also have "fold ?step xs st = fold ?step xs (fst st, snd st)" by simp
  also have "\<dots> = (foldl (put_glyph cv) (fst st) (map ?g xs), snd st @ map call_of (map ?g xs))"
    by (rule fold_put_glyph)
  finally show ?thesis .
qed

lemma generateColorASCIIFrame_value:
  assumes "1 \<le> length (currentCharset conv)" and "length (currentCharset conv) \<le> 2 ^ 31"
  shows "generateColorASCIIFrame cv conv grid
           = Inr (foldl (put_glyph cv) (black_mat (rows grid * 12) (cols grid * 6))
                    (grid_draws_spec (currentCharset conv) grid),
                  map call_of (grid_draws_spec (currentCharset conv) grid))"
proof -
  let ?r = "\<lambda>y. map (cell_draw_spec (currentCharset conv) grid y) [0..<cols grid]"
  let ?step = "\<lambda>y st. (foldl (put_glyph cv) (fst st) (?r y), snd st @ map call_of (?r y))"
  let ?start = "(black_mat (rows grid * 12) (cols grid * 6), [] :: event list)"
  have "for_each (\<lambda>y. for_each (\<lambda>x. draw_cell cv conv grid y x) [0..<cols grid]) [0..<rows grid] ?start
          = Inr (fold ?step [0..<rows grid] ?start)"
    by (rule for_each_Inr) (rule row_loop_value [OF assms])
  also have "fold ?step [0..<rows grid] ?start
          = (foldl (put_glyph cv) (black_mat (rows grid * 12) (cols grid * 6))
               (concat (map ?r [0..<rows grid])),
             [] @ map call_of (concat (map ?r [0..<rows grid])))"
    by (rule fold_rows)
  finally show ?thesis
    by (simp add: generateColorASCIIFrame_def grid_draws_spec_def ASCII_CHAR_WIDTH_def
        ASCII_CHAR_HEIGHT_def Let_def)
qed

lemma foldl_put_glyph_size:
  assumes "putText_in_place cv"
  shows "rows (foldl (put_glyph cv) img ds) = rows img \<and> cols (foldl (put_glyph cv) img ds) = cols img"
proof (induction ds arbitrary: img)
  case Nil
  show ?case by simp
next
  case (Cons d ds)
  obtain t org c where d: "d = (t, org, c)" by (cases d) auto
  from assms have "rows (cv_putText cv img t org ASCII_FONT_SIZE c) = rows img
      \<and> cols (cv_putText cv img t org ASCII_FONT_SIZE c) = cols img"
    unfolding putText_in_place_def by blast
  then have "rows (put_glyph cv img d) = rows img \<and> cols (put_glyph cv img d) = cols img"
    by (simp add: put_glyph_def d)
  with Cons.IH [of "put_glyph cv img d"] show ?case by simp
qed

lemma foldl_put_glyph_untouched:
  assumes "\<forall>d\<in>set ds. untouched_by cv d py px"
  shows "pixel_at (foldl (put_glyph cv) img ds) py px = pixel_at img py px"
  using assms
proof (induction ds arbitrary: img)
  case Nil
  show ?case by simp
next
  case (Cons d ds)
  then have "pixel_at (put_glyph cv img d) py px = pixel_at img py px"
    by (simp add: untouched_by_def)
  with Cons show ?case by simp
qed

lemma draw_calls_call_of: "draw_calls (map call_of ds) = ds"
  by (induction ds) (auto simp: call_of_def)

lemma written_frames_call_of: "written_frames (map call_of ds) = []"
  by (induction ds) (auto simp: call_of_def)

lemma grid_sizes_call_of: "grid_sizes (map call_of ds) = []"
  by (induction ds) (auto simp: call_of_def)

lemma process_frame_resized:
  assumes "1 \<le> length (currentCharset conv)" and "length (currentCharset conv) \<le> 2 ^ 31"
    and "cv_resize cv frame (asciiWidth, asciiHeight) = Some grid"
  shows "process_frame cv conv asciiWidth asciiHeight frame
           = Inr (foldl (put_glyph cv) (black_mat (rows grid * 12) (cols grid * 6))
                    (grid_draws_spec (currentCharset conv) grid),
                  map call_of (grid_draws_spec (currentCharset conv) grid))"
  by (simp add: process_frame_def assms(3) generateColorASCIIFrame_value [OF assms(1,2)])

lemma demo_putText_in_place: "putText_in_place demo_cv"
  by (simp add: putText_in_place_def demo_cv_def demo_putText_def)

lemma demo_resize_to_size: "resize_to_size demo_cv"
  by (auto simp: resize_to_size_def demo_cv_def demo_resize_def split: if_splits)

lemma new_converter_ramp:
  "1 \<le> length (currentCharset new_converter)" "length (currentCharset new_converter) \<le> 2 ^ 31"
  by (simp_all add: new_converter_def length_ASCII_CHARS)

subsection \<open>The run\<close>

lemma open_writer_all_fail:
  assumes "\<forall>codec\<in>set cl. \<not> writer_open cv outputPath (codec ! 0) fps sz"
  shows "open_writer cv outputPath fps sz cl = (None, map (attempt outputPath fps sz) cl)"
  using assms by (induction cl) (simp_all add: attempt_def)

lemma open_writer_first:
  assumes "\<forall>codec\<in>set pre. \<not> writer_open cv outputPath (codec ! 0) fps sz"
    and "writer_open cv outputPath (c ! 0) fps sz"
  shows "open_writer cv outputPath fps sz (pre @ c # post)
           = (Some (c ! 0), map (attempt outputPath fps sz) (pre @ [c]))"
  using assms by (induction pre) (simp_all add: attempt_def)

text \<open>
  The nested conditionals of \<^verbatim>\<open>src/miku.cpp\<close> choose the encoder that the loop chooses on
  the first two candidates, with the same attempts in the same order.
\<close>

lemma open_writer_inline_agrees:
  "fst (open_writer_inline cv outputPath fps frameSize)
     = fst (open_writer cv outputPath fps frameSize (take 2 codecList))
   \<and> filter opens_file (snd (open_writer_inline cv outputPath fps frameSize))
     = snd (open_writer cv outputPath fps frameSize (take 2 codecList))"
  by (simp add: open_writer_inline_def codecList_def)

lemma open_writer_attempts:
  "\<exists>tried. snd (open_writer cv outputPath fps sz cl) = map (attempt outputPath fps sz) tried"
proof (induction cl)
  case Nil
  show ?case by simp
next
  case (Cons codec cl)
  then obtain tried where t: "snd (open_writer cv outputPath fps sz cl) = map (attempt outputPath fps sz) tried"
    by blast
  show ?case
  proof (cases "writer_open cv outputPath (codec ! 0) fps sz")
    case True
    then have "snd (open_writer cv outputPath fps sz (codec # cl)) = map (attempt outputPath fps sz) [codec]"
      by (simp add: attempt_def)
    then show ?thesis by blast
  next
    case False
    obtain r calls where o: "open_writer cv outputPath fps sz cl = (r, calls)"
      by (cases "open_writer cv outputPath fps sz cl") auto
    with t have "calls = map (attempt outputPath fps sz) tried" by simp
    with False o have "snd (open_writer cv outputPath fps sz (codec # cl))
                 = map (attempt outputPath fps sz) (codec # tried)"
      by (simp add: attempt_def)
    then show ?thesis by blast
  qed
qed

lemma written_frames_append: "written_frames (a @ b) = written_frames a @ written_frames b"
  by (induction a rule: written_frames.induct) simp_all

lemma draw_calls_append: "draw_calls (a @ b) = draw_calls a @ draw_calls b"
  by (induction a rule: draw_calls.induct) simp_all

lemma grid_sizes_append: "grid_sizes (a @ b) = grid_sizes a @ grid_sizes b"
  by (induction a rule: grid_sizes.induct) simp_all

lemma attempts_silent:
  "written_frames (map (attempt outputPath fps sz) cl) = []"
  "draw_calls (map (attempt outputPath fps sz) cl) = []"
  "grid_sizes (map (attempt outputPath fps sz) cl) = []"
  by (induction cl) (simp_all add: attempt_def)

lemma for_each_invariant:
  assumes "\<And>i s s'. body i s = Inr s' \<Longrightarrow> P s \<Longrightarrow> P s'"
    and "P s" and "for_each body js s = Inr s'"
  shows "P s'"
  using assms(2,3)
proof (induction js arbitrary: s)
  case Nil
  then show ?case by simp
next
  case (Cons j js)
  from Cons.prems(2) obtain s1 where b: "body j s = Inr s1" and r: "for_each body js s1 = Inr s'"
    by (auto split: sum.splits)
  from assms(1) [OF b Cons.prems(1)] have "P s1" .
  then show ?case using r by (rule Cons.IH)
qed

lemma draw_cell_only_draws:
  assumes "draw_cell cv conv grid y x st = Inr st'" and "only_draws (snd st)"
  shows "only_draws (snd st')"
proof -
  obtain img calls where st: "st = (img, calls)" by (cases st) auto
  obtain p0 p1 p2 where px: "pixel_at grid y x = (p0, p1, p2)"
    by (cases "pixel_at grid y x") auto
  from assms(1) obtain t org c where "snd st' = calls @ [PutText t org c]"
    by (auto simp: draw_cell_def st px Let_def split: sum.splits)
  with assms(2) show ?thesis
    by (simp add: only_draws_def st written_frames_append grid_sizes_append)
qed

lemma generate_only_draws:
  assumes "generateColorASCIIFrame cv conv grid = Inr (img, calls)"
  shows "written_frames calls = [] \<and> grid_sizes calls = []"
proof -
  let ?P = "\<lambda>st. only_draws (snd st)"
  have row: "?P s'" if "for_each (\<lambda>x. draw_cell cv conv grid y x) [0..<cols grid] s = Inr s'" "?P s"
    for y s s'
    using _ that(2) that(1)
    by (rule for_each_invariant [where P = ?P]) (rule draw_cell_only_draws)
  have "?P (img, calls)"
    using _ _ assms [unfolded generateColorASCIIFrame_def Let_def]
  proof (rule for_each_invariant [where P = ?P])
    show "?P s'" if "for_each (\<lambda>x. draw_cell cv conv grid i x) [0..<cols grid] s = Inr s'" "?P s"
      for i s s'
      using that by (rule row)
    show "?P (black_mat (rows grid * nat ASCII_CHAR_HEIGHT) (cols grid * nat ASCII_CHAR_WIDTH), [])"
      by (simp add: only_draws_def)
  qed
  then show ?thesis by (simp add: only_draws_def)
qed

lemma process_frame_only_draws:
  assumes "process_frame cv conv asciiWidth asciiHeight frame = Inr (img, calls)"
  shows "written_frames calls = [] \<and> grid_sizes calls = []"
  using assms by (auto simp: process_frame_def split: option.splits dest: generate_only_draws)

lemma draw_cell_frameCount:
  "draw_cell cv (conv\<lparr>frameCount := n\<rparr>) = draw_cell cv conv"
  by (intro ext) (simp add: draw_cell_def)

lemma generate_frameCount:
  "generateColorASCIIFrame cv (conv\<lparr>frameCount := n\<rparr>) grid
     = generateColorASCIIFrame cv conv grid"
  by (simp add: generateColorASCIIFrame_def draw_cell_frameCount)

lemma process_frame_frameCount:
  "process_frame cv (conv\<lparr>frameCount := n\<rparr>) asciiWidth asciiHeight frame
     = process_frame cv conv asciiWidth asciiHeight frame"
  by (simp add: process_frame_def generate_frameCount split: option.split)

lemma frame_loop_exhausted:
  assumes "cap_pending cap = []"
  shows "frame_loop cv asciiWidth asciiHeight (conv, cap, tr) = Inr (conv, cap, tr @ [CapRead])"
  by (subst frame_loop.simps) (simp add: cap_read_def assms mat_empty_def black_mat_def)

lemma frame_loop_stop:
  assumes "cap_pending cap = frame # rest" and "mat_empty frame"
  shows "frame_loop cv asciiWidth asciiHeight (conv, cap, tr)
           = Inr (conv, cap\<lparr>cap_pending := rest\<rparr>, tr @ [CapRead])"
  by (subst frame_loop.simps) (simp add: cap_read_def assms)

lemma frame_loop_step:
  assumes "cap_pending cap = frame # rest" and "\<not> mat_empty frame"
  shows "frame_loop cv asciiWidth asciiHeight (conv, cap, tr)
           = (case process_frame cv conv asciiWidth asciiHeight frame of
                Inl f \<Rightarrow> Inl f
              | Inr out \<Rightarrow>
                  frame_loop cv asciiWidth asciiHeight
                    (conv\<lparr>frameCount := frameCount conv + 1\<rparr>, cap\<lparr>cap_pending := rest\<rparr>,
                     tr @ frame_events asciiWidth asciiHeight out))"
  by (subst frame_loop.simps)
     (simp add: cap_read_def assms frame_events_def split: sum.split prod.split)

lemma frame_loop_trace:
  assumes "frame_loop cv asciiWidth asciiHeight (conv, cap, tr) = Inr (conv', cap', tr')"
  shows "\<exists>outs.
           list_all2 (\<lambda>frame out. process_frame cv conv asciiWidth asciiHeight frame = Inr out)
             (takeWhile (\<lambda>frame. \<not> mat_empty frame) (cap_pending cap)) outs
         \<and> tr' = tr @ concat (map (frame_events asciiWidth asciiHeight) outs) @ [CapRead]
         \<and> frameCount conv' = frameCount conv + int (length outs)
         \<and> currentCharset conv' = currentCharset conv"
  using assms
proof (induction "cap_pending cap" arbitrary: conv cap tr)
  case Nil
  then have "cap_pending cap = []" by simp
  from Nil.prems [unfolded frame_loop_exhausted [OF this]] \<open>cap_pending cap = []\<close>
  show ?case by auto
next
  case (Cons frame rest)
  then have pend: "cap_pending cap = frame # rest" by simp
  show ?case
  proof (cases "mat_empty frame")
    case True
    from Cons.prems [unfolded frame_loop_stop [OF pend True]] pend True
    show ?thesis by auto
  next
    case False
    let ?conv1 = "conv\<lparr>frameCount := frameCount conv + 1\<rparr>"
    let ?cap1 = "cap\<lparr>cap_pending := rest\<rparr>"
    from Cons.prems [unfolded frame_loop_step [OF pend False]]
    obtain out where p: "process_frame cv conv asciiWidth asciiHeight frame = Inr out"
      and loop: "frame_loop cv asciiWidth asciiHeight
                   (?conv1, ?cap1, tr @ frame_events asciiWidth asciiHeight out)
                 = Inr (conv', cap', tr')"
      by (auto split: sum.splits)
    have "rest = cap_pending ?cap1" by simp
    from Cons.hyps(1) [OF this loop]
    obtain outs where
      all: "list_all2 (\<lambda>frame out. process_frame cv ?conv1 asciiWidth asciiHeight frame = Inr out)
              (takeWhile (\<lambda>frame. \<not> mat_empty frame) rest) outs"
      and t: "tr' = (tr @ frame_events asciiWidth asciiHeight out)
                      @ concat (map (frame_events asciiWidth asciiHeight) outs) @ [CapRead]"
      and n: "frameCount conv' = frameCount ?conv1 + int (length outs)"
      and c: "currentCharset conv' = currentCharset ?conv1"
      by auto
    from all have all': "list_all2 (\<lambda>frame out. process_frame cv conv asciiWidth asciiHeight frame = Inr out)
              (takeWhile (\<lambda>frame. \<not> mat_empty frame) rest) outs"
      by (simp only: process_frame_frameCount)
    have "list_all2 (\<lambda>frame out. process_frame cv conv asciiWidth asciiHeight frame = Inr out)
             (takeWhile (\<lambda>frame. \<not> mat_empty frame) (cap_pending cap)) (out # outs)"
      using all' p False pend by simp
    moreover have "tr' = tr @ concat (map (frame_events asciiWidth asciiHeight) (out # outs)) @ [CapRead]"
      using t by simp
    moreover have "frameCount conv' = frameCount conv + int (length (out # outs))"
      using n by simp
    moreover have "currentCharset conv' = currentCharset conv" using c by simp
    ultimately show ?thesis by blast
  qed
qed

lemma frame_loop_total:
  assumes "list_all (\<lambda>frame. \<exists>out. process_frame cv conv asciiWidth asciiHeight frame = Inr out)
             (takeWhile (\<lambda>frame. \<not> mat_empty frame) (cap_pending cap))"
  shows "\<exists>r. frame_loop cv asciiWidth asciiHeight (conv, cap, tr) = Inr r"
  using assms
proof (induction "cap_pending cap" arbitrary: conv cap tr)
  case Nil
  then have "cap_pending cap = []" by simp
  then show ?case by (simp add: frame_loop_exhausted)
next
  case (Cons frame rest)
  then have pend: "cap_pending cap = frame # rest" by simp
  show ?case
  proof (cases "mat_empty frame")
    case True
    then show ?thesis by (simp add: frame_loop_stop [OF pend])
  next
    case False
    let ?conv1 = "conv\<lparr>frameCount := frameCount conv + 1\<rparr>"
    let ?cap1 = "cap\<lparr>cap_pending := rest\<rparr>"
    from Cons.prems pend False obtain out
      where p: "process_frame cv conv asciiWidth asciiHeight frame = Inr out"
        and others: "list_all (\<lambda>frame. \<exists>out. process_frame cv conv asciiWidth asciiHeight frame = Inr out)
             (takeWhile (\<lambda>frame. \<not> mat_empty frame) rest)"
      by auto
    have "rest = cap_pending ?cap1" by simp
    moreover from others
    have "list_all (\<lambda>frame. \<exists>out. process_frame cv ?conv1 asciiWidth asciiHeight frame = Inr out)
             (takeWhile (\<lambda>frame. \<not> mat_empty frame) (cap_pending ?cap1))"
      by (simp add: process_frame_frameCount)
    ultimately have "\<exists>r. frame_loop cv asciiWidth asciiHeight
                     (?conv1, ?cap1, tr @ frame_events asciiWidth asciiHeight out) = Inr r"
      by (rule Cons.hyps(1))
    then show ?thesis by (simp add: frame_loop_step [OF pend False] p)
  qed
qed

lemma open_writer_Some:
  assumes "\<exists>codec\<in>set cl. writer_open cv outputPath (codec ! 0) fps sz"
  shows "\<exists>c tried. open_writer cv outputPath fps sz cl = (Some c, map (attempt outputPath fps sz) tried)"
  using assms
proof (induction cl)
  case Nil
  then show ?case by simp
next
  case (Cons codec cl)
  show ?case
  proof (cases "writer_open cv outputPath (codec ! 0) fps sz")
    case True
    then have "open_writer cv outputPath fps sz (codec # cl)
                 = (Some (codec ! 0), map (attempt outputPath fps sz) [codec])"
      by (simp add: attempt_def)
    then show ?thesis by blast
  next
    case False
    with Cons.prems have "\<exists>codec\<in>set cl. writer_open cv outputPath (codec ! 0) fps sz" by simp
    from Cons.IH [OF this] obtain c tried
      where "open_writer cv outputPath fps sz cl = (Some c, map (attempt outputPath fps sz) tried)"
      by blast
    with False have "open_writer cv outputPath fps sz (codec # cl)
                 = (Some c, map (attempt outputPath fps sz) (codec # tried))"
      by (simp add: attempt_def)
    then show ?thesis by blast
  qed
qed

lemma convert_opened:
  assumes "capture_open cv inputPath = Some cap"
    and "grid_height asciiWidth (cap_frame_height cap) (cap_frame_width cap) = Inr asciiHeight"
    and "frame_size asciiWidth asciiHeight = Inr frameSize"
  shows "convertToColorASCII cv conv inputPath outputPath asciiWidth quality =
          (case open_writer cv outputPath (cap_fps cap) frameSize codecList of
             (None, opens) \<Rightarrow>
               Inr (False, conv, CapOpen inputPath # opens @ [Cerr CannotCreateOutput, CapRelease])
           | (Some codec, opens) \<Rightarrow>
               (case frame_loop cv asciiWidth asciiHeight
                       (conv\<lparr>frameCount := 0\<rparr>, cap, CapOpen inputPath # opens) of
                  Inl f \<Rightarrow> Inl f
                | Inr (conv', cap', tr) \<Rightarrow> Inr (True, conv', tr @ [CapRelease, WriterRelease])))"
  by (simp add: convertToColorASCII_def assms)

lemma convert_all_fail:
  assumes "capture_open cv inputPath = Some cap"
    and "grid_height asciiWidth (cap_frame_height cap) (cap_frame_width cap) = Inr asciiHeight"
    and "frame_size asciiWidth asciiHeight = Inr frameSize"
    and "\<forall>codec\<in>set codecList. \<not> writer_open cv outputPath (codec ! 0) (cap_fps cap) frameSize"
  shows "convertToColorASCII cv conv inputPath outputPath asciiWidth quality
           = Inr (False, conv,
                  CapOpen inputPath # map (attempt outputPath (cap_fps cap) frameSize) codecList
                    @ [Cerr CannotCreateOutput, CapRelease])"
  by (simp add: convert_opened [OF assms(1,2,3)] open_writer_all_fail [OF assms(4)])

lemma convert_true_shape:
  assumes "capture_open cv inputPath = Some cap"
    and "convertToColorASCII cv conv inputPath outputPath asciiWidth quality = Inr (True, conv', tr)"
  shows "\<exists>asciiHeight frameSize codec tried cap' tr0.
           grid_height asciiWidth (cap_frame_height cap) (cap_frame_width cap) = Inr asciiHeight
         \<and> frame_size asciiWidth asciiHeight = Inr frameSize
         \<and> open_writer cv outputPath (cap_fps cap) frameSize codecList
              = (Some codec, map (attempt outputPath (cap_fps cap) frameSize) tried)
         \<and> frame_loop cv asciiWidth asciiHeight
              (conv\<lparr>frameCount := 0\<rparr>, cap,
               CapOpen inputPath # map (attempt outputPath (cap_fps cap) frameSize) tried)
              = Inr (conv', cap', tr0)
         \<and> tr = tr0 @ [CapRelease, WriterRelease]"
proof -
  from assms obtain asciiHeight
    where gh: "grid_height asciiWidth (cap_frame_height cap) (cap_frame_width cap) = Inr asciiHeight"
    by (auto simp: convertToColorASCII_def split: sum.splits)
  from assms gh obtain frameSize where fs: "frame_size asciiWidth asciiHeight = Inr frameSize"
    by (auto simp: convertToColorASCII_def split: sum.splits)
  note shape = assms(2) [unfolded convert_opened [OF assms(1) gh fs]]
  obtain r opens where ow: "open_writer cv outputPath (cap_fps cap) frameSize codecList = (r, opens)"
    by (cases "open_writer cv outputPath (cap_fps cap) frameSize codecList") auto
  from open_writer_attempts [of cv outputPath "cap_fps cap" frameSize codecList] ow
  obtain tried where tried: "opens = map (attempt outputPath (cap_fps cap) frameSize) tried"
    by auto
  from shape ow obtain codec where r: "r = Some codec"
    by (cases r) auto
  from shape ow r obtain cap' tr0
    where "frame_loop cv asciiWidth asciiHeight (conv\<lparr>frameCount := 0\<rparr>, cap, CapOpen inputPath # opens)
             = Inr (conv', cap', tr0)"
      and "tr = tr0 @ [CapRelease, WriterRelease]"
    by (auto split: sum.splits)
  with gh fs ow r tried show ?thesis by blast
qed

lemma frame_events_written:
  assumes "\<forall>out\<in>set outs. written_frames (snd out) = []"
  shows "written_frames (concat (map (frame_events asciiWidth asciiHeight) outs)) = map fst outs"
  using assms
  by (induction outs) (auto simp: frame_events_def written_frames_append)

lemma frame_events_sizes:
  assumes "\<forall>out\<in>set outs. grid_sizes (snd out) = []"
  shows "grid_sizes (concat (map (frame_events asciiWidth asciiHeight) outs))
           = replicate (length outs) (asciiWidth, asciiHeight)"
  using assms
  by (induction outs) (auto simp: frame_events_def grid_sizes_append)

lemma frame_events_draws:
  "draw_calls (concat (map (frame_events asciiWidth asciiHeight) outs))
     = concat (map (\<lambda>out. draw_calls (snd out)) outs)"
  by (induction outs) (auto simp: frame_events_def draw_calls_append)

lemma successful_run:
  assumes "capture_open cv inputPath = Some cap"
    and "convertToColorASCII cv conv inputPath outputPath asciiWidth quality = Inr (True, conv', tr)"
  shows "\<exists>asciiHeight outs.
           grid_height asciiWidth (cap_frame_height cap) (cap_frame_width cap) = Inr asciiHeight
         \<and> list_all2 (\<lambda>frame out. process_frame cv conv asciiWidth asciiHeight frame = Inr out)
             (processed (cap_pending cap)) outs
         \<and> written_frames tr = map fst outs
         \<and> draw_calls tr = concat (map (\<lambda>out. draw_calls (snd out)) outs)
         \<and> grid_sizes tr = replicate (length outs) (asciiWidth, asciiHeight)
         \<and> frameCount conv' = int (length outs)
         \<and> currentCharset conv' = currentCharset conv"
proof -
  from convert_true_shape [OF assms] obtain asciiHeight frameSize codec tried cap' tr0
    where gh: "grid_height asciiWidth (cap_frame_height cap) (cap_frame_width cap) = Inr asciiHeight"
      and loop: "frame_loop cv asciiWidth asciiHeight
              (conv\<lparr>frameCount := 0\<rparr>, cap,
               CapOpen inputPath # map (attempt outputPath (cap_fps cap) frameSize) tried)
              = Inr (conv', cap', tr0)"
      and tr: "tr = tr0 @ [CapRelease, WriterRelease]"
    by blast
  let ?opens = "map (attempt outputPath (cap_fps cap) frameSize) tried"
  from frame_loop_trace [OF loop] obtain outs
    where all0: "list_all2 (\<lambda>frame out.
                    process_frame cv (conv\<lparr>frameCount := 0\<rparr>) asciiWidth asciiHeight frame = Inr out)
                  (takeWhile (\<lambda>frame. \<not> mat_empty frame) (cap_pending cap)) outs"
      and tr0: "tr0 = (CapOpen inputPath # ?opens)
                        @ concat (map (frame_events asciiWidth asciiHeight) outs) @ [CapRead]"
      and n: "frameCount conv' = frameCount (conv\<lparr>frameCount := 0\<rparr>) + int (length outs)"
      and c: "currentCharset conv' = currentCharset (conv\<lparr>frameCount := 0\<rparr>)"
    by blast
  from all0 have all: "list_all2 (\<lambda>frame out. process_frame cv conv asciiWidth asciiHeight frame = Inr out)
             (processed (cap_pending cap)) outs"
    by (simp only: process_frame_frameCount processed_def)
  have quiet: "\<forall>out\<in>set outs. written_frames (snd out) = [] \<and> grid_sizes (snd out) = []"
  proof
    fix out assume "out \<in> set outs"
    with all obtain frame where "process_frame cv conv asciiWidth asciiHeight frame = Inr out"
      by (auto simp: list_all2_conv_all_nth in_set_conv_nth)
    then show "written_frames (snd out) = [] \<and> grid_sizes (snd out) = []"
      using process_frame_only_draws [of cv conv asciiWidth asciiHeight frame "fst out" "snd out"]
      by simp
  qed
  have w: "written_frames tr = map fst outs"
    using quiet by (simp add: tr tr0 written_frames_append attempts_silent frame_events_written)
  have d: "draw_calls tr = concat (map (\<lambda>out. draw_calls (snd out)) outs)"
    by (simp add: tr tr0 draw_calls_append attempts_silent frame_events_draws)
  have g: "grid_sizes tr = replicate (length outs) (asciiWidth, asciiHeight)"
    using quiet by (simp add: tr tr0 grid_sizes_append attempts_silent frame_events_sizes)
  from gh all w d g n c show ?thesis by auto
qed

lemma convert_completes:
  assumes "capture_open cv inputPath = Some cap"
    and "grid_height asciiWidth (cap_frame_height cap) (cap_frame_width cap) = Inr asciiHeight"
    and "frame_size asciiWidth asciiHeight = Inr frameSize"
    and "\<exists>codec\<in>set codecList. writer_open cv outputPath (codec ! 0) (cap_fps cap) frameSize"
    and "1 \<le> length (currentCharset conv)" and "length (currentCharset conv) \<le> 2 ^ 31"
    and "list_all (\<lambda>frame. cv_resize cv frame (asciiWidth, asciiHeight) \<noteq> None)
           (processed (cap_pending cap))"
  shows "\<exists>conv' tr. convertToColorASCII cv conv inputPath outputPath asciiWidth quality
                      = Inr (True, conv', tr)"
proof -
  let ?conv0 = "conv\<lparr>frameCount := 0\<rparr>"
  from open_writer_Some [OF assms(4)] obtain c tried
    where ow: "open_writer cv outputPath (cap_fps cap) frameSize codecList
                 = (Some c, map (attempt outputPath (cap_fps cap) frameSize) tried)"
    by blast
  have ramp: "1 \<le> length (currentCharset ?conv0)" "length (currentCharset ?conv0) \<le> 2 ^ 31"
    using assms(5,6) by simp_all
  have "list_all (\<lambda>frame. \<exists>out. process_frame cv ?conv0 asciiWidth asciiHeight frame = Inr out)
          (takeWhile (\<lambda>frame. \<not> mat_empty frame) (cap_pending cap))"
    unfolding list_all_iff
  proof
    fix frame assume "frame \<in> set (takeWhile (\<lambda>frame. \<not> mat_empty frame) (cap_pending cap))"
    with assms(7) obtain grid where "cv_resize cv frame (asciiWidth, asciiHeight) = Some grid"
      by (auto simp: list_all_iff processed_def)
    from process_frame_resized [OF ramp this]
    show "\<exists>out. process_frame cv ?conv0 asciiWidth asciiHeight frame = Inr out" by blast
  qed
  from frame_loop_total [OF this] obtain r
    where "frame_loop cv asciiWidth asciiHeight
             (?conv0, cap, CapOpen inputPath # map (attempt outputPath (cap_fps cap) frameSize) tried)
           = Inr r"
    by blast
  then show ?thesis
    by (cases r) (auto simp: convert_opened [OF assms(1,2,3)] ow)
qed

text \<open>
  Claim C6. For an input whose \<open>F\<close> frames are all non-empty, a run in which
  \<^verbatim>\<open>convertToColorASCII\<close> returns true hands exactly \<open>F\<close> frames to the writer and counts
  \<open>F\<close> frames, and the \<open>k\<close>-th frame written is the canvas obtained by resizing and
  rasterising the \<open>k\<close>-th frame read.
\<close>

theorem frames_written_in_order:
  assumes "capture_open cv inputPath = Some cap"
    and "\<forall>frame\<in>set (cap_pending cap). \<not> mat_empty frame"
    and "convertToColorASCII cv conv inputPath outputPath asciiWidth quality = Inr (True, conv', tr)"
  shows "length (written_frames tr) = length (cap_pending cap)
       \<and> frameCount conv' = int (length (cap_pending cap))
       \<and> (\<exists>asciiHeight.
            grid_height asciiWidth (cap_frame_height cap) (cap_frame_width cap) = Inr asciiHeight
          \<and> (\<forall>k<length (cap_pending cap).
                \<exists>calls. process_frame cv conv asciiWidth asciiHeight (cap_pending cap ! k)
                          = Inr (written_frames tr ! k, calls)))"
proof -
  from successful_run [OF assms(1,3)] obtain asciiHeight outs
    where gh: "grid_height asciiWidth (cap_frame_height cap) (cap_frame_width cap) = Inr asciiHeight"
      and all: "list_all2 (\<lambda>frame out. process_frame cv conv asciiWidth asciiHeight frame = Inr out)
                  (processed (cap_pending cap)) outs"
      and w: "written_frames tr = map fst outs"
      and n: "frameCount conv' = int (length outs)"
    by blast
  have whole: "processed (cap_pending cap) = cap_pending cap"
    using assms(2) by (simp add: processed_def)
  from all have len: "length outs = length (cap_pending cap)"
    by (simp add: whole list_all2_lengthD)
  have each: "\<exists>calls. process_frame cv conv asciiWidth asciiHeight (cap_pending cap ! k)
                          = Inr (written_frames tr ! k, calls)"
    if "k < length (cap_pending cap)" for k
  proof -
    from all that have "process_frame cv conv asciiWidth asciiHeight (cap_pending cap ! k) = Inr (outs ! k)"
      by (simp add: whole list_all2_conv_all_nth)
    moreover have "written_frames tr ! k = fst (outs ! k)"
      using that len by (simp add: w)
    ultimately have "process_frame cv conv asciiWidth asciiHeight (cap_pending cap ! k)
                          = Inr (written_frames tr ! k, snd (outs ! k))"
      by simp
    then show ?thesis by blast
  qed
  from gh each len w n show ?thesis by auto
qed

lemma demo_input: "capture_open demo_cv ''in.mp4'' = Some demo_capture"
  by (simp add: demo_cv_def)

lemma demo_grid_height: "grid_height 2 4 4 = Inr 1"
proof -
  have "grid_height 2 4 4 = Inr ((2 * 4) div 4 div 2)"
    by (rule grid_height_nonneg) (simp_all add: INT_MAX_def)
  then show ?thesis by simp
qed

lemma demo_frame_size: "frame_size 2 1 = Inr (12, 12)"
  by (simp add: frame_size_def int_mul_def fits_int_def INT_MIN_def INT_MAX_def
      ASCII_CHAR_WIDTH_def ASCII_CHAR_HEIGHT_def)

lemma demo_frames_nonempty: "\<forall>frame\<in>set (cap_pending demo_capture). \<not> mat_empty frame"
  by (simp add: demo_capture_def demo_frame_def mat_empty_def)

lemma demo_frames_resize:
  "list_all (\<lambda>frame. demo_resize frame (2, 1) \<noteq> None) (processed (cap_pending demo_capture))"
  by (simp add: list_all_iff demo_resize_def)

lemma fourcc_values:
  "fourcc CHR ''m'' CHR ''p'' CHR ''4'' CHR ''v'' = 1983148141"
  "fourcc CHR ''a'' CHR ''v'' CHR ''c'' CHR ''1'' = 828601953"
  "fourcc CHR ''X'' CHR ''2'' CHR ''6'' CHR ''4'' = 875967064"
  "fourcc CHR ''H'' CHR ''2'' CHR ''6'' CHR ''4'' = 875967048"
  by (simp_all add: fourcc_def)

lemma demo_run:
  "\<exists>conv' tr. convertToColorASCII demo_cv new_converter ''in.mp4'' ''out.mp4'' 2 1
               = Inr (True, conv', tr)"
proof (rule convert_completes [OF demo_input])
  show "grid_height 2 (cap_frame_height demo_capture) (cap_frame_width demo_capture) = Inr 1"
    by (simp add: demo_capture_def demo_grid_height)
  show "frame_size 2 1 = Inr (12, 12)" by (rule demo_frame_size)
  show "\<exists>codec\<in>set codecList. writer_open demo_cv ''out.mp4'' (codec ! 0) (cap_fps demo_capture) (12, 12)"
    by (simp add: codecList_def demo_cv_def)
  show "1 \<le> length (currentCharset new_converter)" "length (currentCharset new_converter) \<le> 2 ^ 31"
    by (rule new_converter_ramp)+
  show "list_all (\<lambda>frame. cv_resize demo_cv frame (2, 1) \<noteq> None) (processed (cap_pending demo_capture))"
    using demo_frames_resize by (simp add: demo_cv_def)
qed

theorem frames_written_in_order_witness:
  "capture_open demo_cv ''in.mp4'' = Some demo_capture
   \<and> list_all (\<lambda>frame. \<not> mat_empty frame) (cap_pending demo_capture)
   \<and> (\<exists>conv' tr. convertToColorASCII demo_cv new_converter ''in.mp4'' ''out.mp4'' 2 1
                     = Inr (True, conv', tr)
                 \<and> length (written_frames tr) = 2 \<and> frameCount conv' = 2
                 \<and> (\<exists>calls. process_frame demo_cv new_converter 2 1 (demo_frame 2)
                              = Inr (written_frames tr ! 1, calls)))"
proof -
  from demo_run obtain conv' tr
    where run: "convertToColorASCII demo_cv new_converter ''in.mp4'' ''out.mp4'' 2 1
                  = Inr (True, conv', tr)"
    by blast
  have pending: "cap_pending demo_capture = [demo_frame 1, demo_frame 2]"
    by (simp add: demo_capture_def)
  from frames_written_in_order [OF demo_input demo_frames_nonempty run]
  have "length (written_frames tr) = 2" and "frameCount conv' = 2"
    and "\<exists>asciiHeight.
            grid_height 2 (cap_frame_height demo_capture) (cap_frame_width demo_capture) = Inr asciiHeight
          \<and> (\<forall>k<length (cap_pending demo_capture).
                \<exists>calls. process_frame demo_cv new_converter 2 asciiHeight (cap_pending demo_capture ! k)
                          = Inr (written_frames tr ! k, calls))"
    by (simp_all add: pending)
  then obtain asciiHeight
    where "grid_height 2 (cap_frame_height demo_capture) (cap_frame_width demo_capture) = Inr asciiHeight"
      and each: "\<forall>k<length (cap_pending demo_capture).
                \<exists>calls. process_frame demo_cv new_converter 2 asciiHeight (cap_pending demo_capture ! k)
                          = Inr (written_frames tr ! k, calls)"
    by blast
  then have "asciiHeight = 1" by (simp add: demo_capture_def demo_grid_height)
  moreover have "(1::nat) < length (cap_pending demo_capture)"
    and "cap_pending demo_capture ! 1 = demo_frame 2"
    by (simp_all add: pending)
  ultimately have "\<exists>calls. process_frame demo_cv new_converter 2 1 (demo_frame 2)
                              = Inr (written_frames tr ! 1, calls)"
    using each by metis
  moreover have "list_all (\<lambda>frame. \<not> mat_empty frame) (cap_pending demo_capture)"
    using demo_frames_nonempty by (simp only: list_all_iff)
  ultimately show ?thesis
    using run \<open>length (written_frames tr) = 2\<close> \<open>frameCount conv' = 2\<close> demo_input by blast
qed

lemma canvas_size:
  assumes "putText_in_place cv"
  shows "rows (canvas_spec cv ramp grid) = rows grid * 12
       \<and> cols (canvas_spec cv ramp grid) = cols grid * 6"
  by (simp add: canvas_spec_def foldl_put_glyph_size [OF assms] black_mat_def)

lemma canvas_untouched:
  assumes "\<forall>d\<in>set (grid_draws_spec ramp grid). untouched_by cv d py px"
  shows "pixel_at (canvas_spec cv ramp grid) py px = black"
  using assms by (simp add: canvas_spec_def foldl_put_glyph_untouched black_mat_def)

lemma process_frame_canvas:
  assumes "1 \<le> length (currentCharset conv)" and "length (currentCharset conv) \<le> 2 ^ 31"
    and "process_frame cv conv asciiWidth asciiHeight frame = Inr (out, calls)"
  shows "\<exists>resized. cv_resize cv frame (asciiWidth, asciiHeight) = Some resized
           \<and> out = canvas_spec cv (currentCharset conv) resized
           \<and> calls = map call_of (grid_draws_spec (currentCharset conv) resized)"
proof -
  from assms(3) obtain resized
    where r: "cv_resize cv frame (asciiWidth, asciiHeight) = Some resized"
    by (auto simp: process_frame_def split: option.splits)
  from assms(3) process_frame_resized [OF assms(1,2) r]
  have "out = canvas_spec cv (currentCharset conv) resized"
    and "calls = map call_of (grid_draws_spec (currentCharset conv) resized)"
    by (simp_all add: canvas_spec_def)
  with r show ?thesis by blast
qed

lemma processed_canvases:
  assumes "1 \<le> length (currentCharset conv)" and "length (currentCharset conv) \<le> 2 ^ 31"
    and "list_all2 (\<lambda>frame out. process_frame cv conv asciiWidth asciiHeight frame = Inr out) frames outs"
  shows "\<exists>grids.
           list_all2 (\<lambda>frame resized. cv_resize cv frame (asciiWidth, asciiHeight) = Some resized)
             frames grids
         \<and> map fst outs = map (canvas_spec cv (currentCharset conv)) grids
         \<and> concat (map (\<lambda>out. draw_calls (snd out)) outs)
             = concat (map (grid_draws_spec (currentCharset conv)) grids)"
  using assms(3)
proof (induction rule: list_all2_induct)
  case Nil
  show ?case by simp
next
  case (Cons frame frames out outs)
  from Cons.hyps(1) have "process_frame cv conv asciiWidth asciiHeight frame = Inr (fst out, snd out)"
    by simp
  from process_frame_canvas [OF assms(1,2) this] obtain resized
    where r: "cv_resize cv frame (asciiWidth, asciiHeight) = Some resized"
      and o: "fst out = canvas_spec cv (currentCharset conv) resized"
      and c: "snd out = map call_of (grid_draws_spec (currentCharset conv) resized)"
    by blast
  from Cons.IH obtain grids
    where g: "list_all2 (\<lambda>frame resized. cv_resize cv frame (asciiWidth, asciiHeight) = Some resized)
                frames grids"
      and w: "map fst outs = map (canvas_spec cv (currentCharset conv)) grids"
      and d: "concat (map (\<lambda>out. draw_calls (snd out)) outs)
                = concat (map (grid_draws_spec (currentCharset conv)) grids)"
    by blast
  show ?case
    by (rule exI [of _ "resized # grids"]) (simp add: r o c g w d draw_calls_call_of)
qed

text \<open>
  Claim C7. For a grid of \<open>cols\<close> by \<open>rows\<close> cells the rasteriser returns a canvas of exactly
  \<open>cols \<times> 6\<close> by \<open>rows \<times> 12\<close> pixels (the cell is 6 by 12); the canvas starts black everywhere
  and is the result of one \<^verbatim>\<open>putText\<close> per cell, row by row, each with the cell's selected
  glyph, the cell's own colour and the origin \<open>(x \<times> 6, (y + 1) \<times> 12 - 2)\<close>; a pixel that none
  of these calls touches is black at the end. The selected glyph of a cell is the one that
  \<^verbatim>\<open>getASCIIChar\<close> returns for the brightness of the cell. Every frame that a round of the
  main loop produces is the canvas of the frame read, resized to the grid, and when
  \<^verbatim>\<open>cv::resize\<close> returns the size it is asked for it is \<open>asciiWidth \<times> 6\<close> by
  \<open>asciiHeight \<times> 12\<close>; the frames that a successful run writes are these canvases, one for
  each frame read, in order. The grid is only read: it is passed by constant reference, and
  every draw is computed from the grid as it was passed.
\<close>

theorem rasterised_frame:
  assumes "1 \<le> length (currentCharset conv)" and "length (currentCharset conv) \<le> 2 ^ 31"
    and "putText_in_place cv"
  shows "(\<exists>asciiFrame calls.
           generateColorASCIIFrame cv conv grid = Inr (asciiFrame, calls)
         \<and> int (cols asciiFrame) = int (cols grid) * ASCII_CHAR_WIDTH
         \<and> int (rows asciiFrame) = int (rows grid) * ASCII_CHAR_HEIGHT
         \<and> ASCII_CHAR_WIDTH = 6 \<and> ASCII_CHAR_HEIGHT = 12
         \<and> asciiFrame = foldl (put_glyph cv) (black_mat (rows grid * 12) (cols grid * 6))
                          (grid_draws_spec (currentCharset conv) grid)
         \<and> (\<forall>py px. pixel_at (black_mat (rows grid * 12) (cols grid * 6)) py px = black)
         \<and> draw_calls calls = grid_draws_spec (currentCharset conv) grid
         \<and> (\<forall>py px. (\<forall>d\<in>set (grid_draws_spec (currentCharset conv) grid). untouched_by cv d py px)
                \<longrightarrow> pixel_at asciiFrame py px = black))
       \<and> (\<forall>y x. getASCIIChar (currentCharset conv) (cell_brightness grid y x)
                  = Inr (currentCharset conv ! cell_index_spec (currentCharset conv) grid y x))
       \<and> (\<forall>asciiWidth asciiHeight frame out calls'.
              process_frame cv conv asciiWidth asciiHeight frame = Inr (out, calls')
              \<longrightarrow> (\<exists>resized.
                     cv_resize cv frame (asciiWidth, asciiHeight) = Some resized
                   \<and> out = canvas_spec cv (currentCharset conv) resized
                   \<and> draw_calls calls' = grid_draws_spec (currentCharset conv) resized
                   \<and> (\<forall>py px. (\<forall>d\<in>set (grid_draws_spec (currentCharset conv) resized).
                                   untouched_by cv d py px)
                          \<longrightarrow> pixel_at out py px = black)
                   \<and> (resize_to_size cv
                        \<longrightarrow> int (cols out) = asciiWidth * ASCII_CHAR_WIDTH
                          \<and> int (rows out) = asciiHeight * ASCII_CHAR_HEIGHT)))
       \<and> (\<forall>inputPath outputPath asciiWidth quality cap conv' tr.
              capture_open cv inputPath = Some cap
            \<and> convertToColorASCII cv conv inputPath outputPath asciiWidth quality
                = Inr (True, conv', tr)
              \<longrightarrow> (\<exists>asciiHeight grids.
                     grid_height asciiWidth (cap_frame_height cap) (cap_frame_width cap)
                       = Inr asciiHeight
                   \<and> list_all2
                       (\<lambda>frame resized. cv_resize cv frame (asciiWidth, asciiHeight) = Some resized)
                       (processed (cap_pending cap)) grids
                   \<and> written_frames tr = map (canvas_spec cv (currentCharset conv)) grids
                   \<and> draw_calls tr = concat (map (grid_draws_spec (currentCharset conv)) grids)
                   \<and> (resize_to_size cv
                        \<longrightarrow> (\<forall>out\<in>set (written_frames tr).
                               int (cols out) = asciiWidth * ASCII_CHAR_WIDTH
                             \<and> int (rows out) = asciiHeight * ASCII_CHAR_HEIGHT))))"
proof -
  let ?cs = "currentCharset conv"
  let ?ds = "grid_draws_spec ?cs grid"
  let ?start = "black_mat (rows grid * 12) (cols grid * 6)"
  let ?out = "foldl (put_glyph cv) ?start ?ds"
  have val: "generateColorASCIIFrame cv conv grid = Inr (?out, map call_of ?ds)"
    by (rule generateColorASCIIFrame_value [OF assms(1,2)])
  have size: "int (cols ?out) = int (cols grid) * ASCII_CHAR_WIDTH
            \<and> int (rows ?out) = int (rows grid) * ASCII_CHAR_HEIGHT"
    by (simp add: foldl_put_glyph_size [OF assms(3)] black_mat_def ASCII_CHAR_WIDTH_def
        ASCII_CHAR_HEIGHT_def)
  have cell: "ASCII_CHAR_WIDTH = 6 \<and> ASCII_CHAR_HEIGHT = 12"
    by (simp add: ASCII_CHAR_WIDTH_def ASCII_CHAR_HEIGHT_def)
  have start: "\<forall>py px. pixel_at ?start py px = black"
    by (simp add: black_mat_def)
  have calls: "draw_calls (map call_of ?ds) = ?ds"
    by (rule draw_calls_call_of)
  have rest: "\<forall>py px. (\<forall>d\<in>set ?ds. untouched_by cv d py px) \<longrightarrow> pixel_at ?out py px = black"
    by (simp add: foldl_put_glyph_untouched black_mat_def)
  from val size cell start calls rest
  have one: "\<exists>asciiFrame calls.
           generateColorASCIIFrame cv conv grid = Inr (asciiFrame, calls)
         \<and> int (cols asciiFrame) = int (cols grid) * ASCII_CHAR_WIDTH
         \<and> int (rows asciiFrame) = int (rows grid) * ASCII_CHAR_HEIGHT
         \<and> ASCII_CHAR_WIDTH = 6 \<and> ASCII_CHAR_HEIGHT = 12
         \<and> asciiFrame = ?out
         \<and> (\<forall>py px. pixel_at ?start py px = black)
         \<and> draw_calls calls = ?ds
         \<and> (\<forall>py px. (\<forall>d\<in>set ?ds. untouched_by cv d py px) \<longrightarrow> pixel_at asciiFrame py px = black)"
    by blast
  have sized: "int (cols (canvas_spec cv ?cs resized)) = asciiWidth * ASCII_CHAR_WIDTH
             \<and> int (rows (canvas_spec cv ?cs resized)) = asciiHeight * ASCII_CHAR_HEIGHT"
    if "resize_to_size cv" and "cv_resize cv frame (asciiWidth, asciiHeight) = Some resized"
    for frame asciiWidth asciiHeight resized
  proof -
    from that have "int (cols resized) = asciiWidth" "int (rows resized) = asciiHeight"
      unfolding resize_to_size_def by blast+
    then show ?thesis
      by (auto simp: canvas_size [OF assms(3)] ASCII_CHAR_WIDTH_def ASCII_CHAR_HEIGHT_def)
  qed
  have frame: "\<exists>resized.
                     cv_resize cv frame (asciiWidth, asciiHeight) = Some resized
                   \<and> out = canvas_spec cv ?cs resized
                   \<and> draw_calls calls' = grid_draws_spec ?cs resized
                   \<and> (\<forall>py px. (\<forall>d\<in>set (grid_draws_spec ?cs resized). untouched_by cv d py px)
                          \<longrightarrow> pixel_at out py px = black)
                   \<and> (resize_to_size cv
                        \<longrightarrow> int (cols out) = asciiWidth * ASCII_CHAR_WIDTH
                          \<and> int (rows out) = asciiHeight * ASCII_CHAR_HEIGHT)"
    if "process_frame cv conv asciiWidth asciiHeight frame = Inr (out, calls')"
    for asciiWidth asciiHeight frame out calls'
  proof -
    from process_frame_canvas [OF assms(1,2) that] obtain resized
      where r: "cv_resize cv frame (asciiWidth, asciiHeight) = Some resized"
        and o: "out = canvas_spec cv ?cs resized"
        and c: "calls' = map call_of (grid_draws_spec ?cs resized)"
      by blast
    have "draw_calls calls' = grid_draws_spec ?cs resized"
      by (simp only: c draw_calls_call_of)
    moreover have "\<forall>py px. (\<forall>d\<in>set (grid_draws_spec ?cs resized). untouched_by cv d py px)
                          \<longrightarrow> pixel_at out py px = black"
      by (simp add: o canvas_untouched)
    moreover have "resize_to_size cv
                        \<longrightarrow> int (cols out) = asciiWidth * ASCII_CHAR_WIDTH
                          \<and> int (rows out) = asciiHeight * ASCII_CHAR_HEIGHT"
      using sized [OF _ r] by (simp only: o) blast
    ultimately show ?thesis using r o by blast
  qed
  have run: "\<exists>asciiHeight grids.
                     grid_height asciiWidth (cap_frame_height cap) (cap_frame_width cap)
                       = Inr asciiHeight
                   \<and> list_all2
                       (\<lambda>frame resized. cv_resize cv frame (asciiWidth, asciiHeight) = Some resized)
                       (processed (cap_pending cap)) grids
                   \<and> written_frames tr = map (canvas_spec cv ?cs) grids
                   \<and> draw_calls tr = concat (map (grid_draws_spec ?cs) grids)
                   \<and> (resize_to_size cv
                        \<longrightarrow> (\<forall>out\<in>set (written_frames tr).
                               int (cols out) = asciiWidth * ASCII_CHAR_WIDTH
                             \<and> int (rows out) = asciiHeight * ASCII_CHAR_HEIGHT))"
    if "capture_open cv inputPath = Some cap"
      and "convertToColorASCII cv conv inputPath outputPath asciiWidth quality
             = Inr (True, conv', tr)"
    for inputPath outputPath asciiWidth quality cap conv' tr
  proof -
    from successful_run [OF that] obtain asciiHeight outs
      where gh: "grid_height asciiWidth (cap_frame_height cap) (cap_frame_width cap) = Inr asciiHeight"
        and all: "list_all2 (\<lambda>frame out. process_frame cv conv asciiWidth asciiHeight frame = Inr out)
                    (processed (cap_pending cap)) outs"
        and w: "written_frames tr = map fst outs"
        and d: "draw_calls tr = concat (map (\<lambda>out. draw_calls (snd out)) outs)"
      by blast
    from processed_canvases [OF assms(1,2) all] obtain grids
      where g: "list_all2
                  (\<lambda>frame resized. cv_resize cv frame (asciiWidth, asciiHeight) = Some resized)
                  (processed (cap_pending cap)) grids"
        and w': "map fst outs = map (canvas_spec cv ?cs) grids"
        and d': "concat (map (\<lambda>out. draw_calls (snd out)) outs)
                   = concat (map (grid_draws_spec ?cs) grids)"
      by blast
    have "int (cols out) = asciiWidth * ASCII_CHAR_WIDTH
        \<and> int (rows out) = asciiHeight * ASCII_CHAR_HEIGHT"
      if rs: "resize_to_size cv" and "out \<in> set (written_frames tr)" for out
    proof -
      from that(2) obtain resized where "resized \<in> set grids"
        and o: "out = canvas_spec cv ?cs resized"
        by (auto simp: w w')
      with g obtain frame where "cv_resize cv frame (asciiWidth, asciiHeight) = Some resized"
        by (auto simp: list_all2_conv_all_nth in_set_conv_nth)
      from sized [OF rs this] show ?thesis by (simp only: o)
    qed
    then have "resize_to_size cv
                 \<longrightarrow> (\<forall>out\<in>set (written_frames tr).
                        int (cols out) = asciiWidth * ASCII_CHAR_WIDTH
                      \<and> int (rows out) = asciiHeight * ASCII_CHAR_HEIGHT)"
      by blast
    with gh g show ?thesis by (auto simp: w w' d d')
  qed
  show ?thesis
    apply (intro conjI allI impI)
       apply (rule one)
      apply (rule selected_glyph [OF assms(1,2)])
     apply (erule frame)
    apply (elim conjE, rule run, assumption+)
    done
qed

lemma demo_geometry:
  "grid_height 2 (cap_frame_height demo_capture) (cap_frame_width demo_capture) = Inr 1"
  by (simp add: demo_capture_def demo_grid_height)

lemma ramp_glyphs:
  "ASCII_CHARS ! 8 = CHR '';''" "ASCII_CHARS ! 11 = CHR ''!''" "ASCII_CHARS ! 16 = CHR ''+''"
  "ASCII_CHARS ! 19 = CHR ''?''" "ASCII_CHARS ! 22 = CHR ''}''"
  by (simp_all add: ASCII_CHARS_def)

lemma demo_grid_draws:
  "grid_draws_spec ASCII_CHARS demo_grid
     = [([CHR '';''], (0, 10), (0, 0, 100)), ([CHR ''!''], (6, 10), (120, 0, 100)),
        ([CHR ''}''], (12, 10), (9, 140, 6))]"
proof -
  have cols: "[0..<3] = [0, Suc 0, Suc (Suc 0)]" by (simp add: upt_rec)
  show ?thesis
    by (simp add: grid_draws_spec_def cell_draw_spec_def cell_index_spec_def cell_brightness_def
        demo_grid_def length_ASCII_CHARS cols luminance_dark_red luminance_purple
        luminance_green index_dark_red index_purple index_green ramp_glyphs)
qed

lemma demo_green_cell: "getASCIIChar ASCII_CHARS (cell_brightness demo_grid 0 2) = Inr CHR ''}''"
proof -
  have l: "1 \<le> length ASCII_CHARS" and u: "length ASCII_CHARS \<le> 2 ^ 31"
    by (simp_all add: length_ASCII_CHARS)
  show ?thesis
    by (simp add: getASCIIChar_spec [OF l u] cell_brightness_def demo_grid_def length_ASCII_CHARS
        luminance_green index_green ramp_glyphs)
qed

lemma demo_resized_draws:
  "\<exists>resized. cv_resize demo_cv (demo_frame 1) (2, 1) = Some resized
       \<and> grid_draws_spec ASCII_CHARS resized
           = [([CHR '';''], (0, 10), (0, 0, 100)), ([CHR ''!''], (6, 10), (120, 0, 100))]"
  "\<exists>resized. cv_resize demo_cv (demo_frame 2) (2, 1) = Some resized
       \<and> grid_draws_spec ASCII_CHARS resized
           = [([CHR ''+''], (0, 10), (0, 0, 200)), ([CHR ''?''], (6, 10), (120, 0, 200))]"
proof -
  have cols: "[0..<2] = [0, Suc 0]" by (simp add: upt_rec)
  show "\<exists>resized. cv_resize demo_cv (demo_frame 1) (2, 1) = Some resized
       \<and> grid_draws_spec ASCII_CHARS resized
           = [([CHR '';''], (0, 10), (0, 0, 100)), ([CHR ''!''], (6, 10), (120, 0, 100))]"
    by (simp add: demo_cv_def demo_resize_def demo_frame_def grid_draws_spec_def
        cell_draw_spec_def cell_index_spec_def cell_brightness_def length_ASCII_CHARS cols
        luminance_dark_red luminance_purple index_dark_red index_purple ramp_glyphs)
  show "\<exists>resized. cv_resize demo_cv (demo_frame 2) (2, 1) = Some resized
       \<and> grid_draws_spec ASCII_CHARS resized
           = [([CHR ''+''], (0, 10), (0, 0, 200)), ([CHR ''?''], (6, 10), (120, 0, 200))]"
    by (simp add: demo_cv_def demo_resize_def demo_frame_def grid_draws_spec_def
        cell_draw_spec_def cell_index_spec_def cell_brightness_def length_ASCII_CHARS cols
        luminance_red luminance_magenta index_red index_magenta ramp_glyphs)
qed

theorem rasterised_frame_witness:
  "1 \<le> length (currentCharset new_converter) \<and> length (currentCharset new_converter) \<le> 2 ^ 31
   \<and> putText_in_place demo_cv
   \<and> list_all (\<lambda>d. untouched_by demo_cv d 0 0)
         (grid_draws_spec (currentCharset new_converter) demo_grid)
   \<and> (\<exists>asciiFrame calls.
         generateColorASCIIFrame demo_cv new_converter demo_grid = Inr (asciiFrame, calls)
       \<and> cols asciiFrame = 18 \<and> rows asciiFrame = 12
       \<and> draw_calls calls
           = [([CHR '';''], (0, 10), (0, 0, 100)), ([CHR ''!''], (6, 10), (120, 0, 100)),
              ([CHR ''}''], (12, 10), (9, 140, 6))]
       \<and> pixel_at asciiFrame 0 0 = black)
   \<and> getASCIIChar ASCII_CHARS (cell_brightness demo_grid 0 2) = Inr CHR ''}''
   \<and> (\<exists>out calls.
         process_frame demo_cv new_converter 2 1 (demo_frame 1) = Inr (out, calls)
       \<and> cols out = 12 \<and> rows out = 12
       \<and> draw_calls calls
           = [([CHR '';''], (0, 10), (0, 0, 100)), ([CHR ''!''], (6, 10), (120, 0, 100))])
   \<and> capture_open demo_cv ''in.mp4'' = Some demo_capture
   \<and> (\<exists>conv' tr.
         convertToColorASCII demo_cv new_converter ''in.mp4'' ''out.mp4'' 2 1
           = Inr (True, conv', tr)
       \<and> length (written_frames tr) = 2
       \<and> list_all (\<lambda>out. cols out = 12 \<and> rows out = 12) (written_frames tr)
       \<and> draw_calls tr
           = [([CHR '';''], (0, 10), (0, 0, 100)), ([CHR ''!''], (6, 10), (120, 0, 100)),
              ([CHR ''+''], (0, 10), (0, 0, 200)), ([CHR ''?''], (6, 10), (120, 0, 200))])"
proof -
  have cs: "currentCharset new_converter = ASCII_CHARS" by (simp add: new_converter_def)
  have un: "\<forall>d\<in>set (grid_draws_spec (currentCharset new_converter) demo_grid).
              untouched_by demo_cv d 0 0"
    by (simp add: cs demo_grid_draws untouched_by_def put_glyph_def demo_cv_def demo_putText_def)
  have dims: "cols demo_grid = 3" "rows demo_grid = 1" by (simp_all add: demo_grid_def)
  note rf = rasterised_frame [OF new_converter_ramp demo_putText_in_place, of demo_grid]
  note grid = rf [THEN conjunct1]
  note glyph = rf [THEN conjunct2, THEN conjunct1, rule_format]
  note round = rf [THEN conjunct2, THEN conjunct2, THEN conjunct1, rule_format]
  note whole = rf [THEN conjunct2, THEN conjunct2, THEN conjunct2, rule_format]
  from grid obtain asciiFrame calls where
    g: "generateColorASCIIFrame demo_cv new_converter demo_grid = Inr (asciiFrame, calls)"
    and c: "int (cols asciiFrame) = int (cols demo_grid) * ASCII_CHAR_WIDTH"
    and r: "int (rows asciiFrame) = int (rows demo_grid) * ASCII_CHAR_HEIGHT"
    and k: "ASCII_CHAR_WIDTH = 6 \<and> ASCII_CHAR_HEIGHT = 12"
    and d: "draw_calls calls = grid_draws_spec (currentCharset new_converter) demo_grid"
    and u: "\<forall>py px. (\<forall>d\<in>set (grid_draws_spec (currentCharset new_converter) demo_grid).
                       untouched_by demo_cv d py px) \<longrightarrow> pixel_at asciiFrame py px = black"
    by blast
  note sel = glyph [of 0 2]
  from c r k dims have "cols asciiFrame = 18" "rows asciiFrame = 12" by simp_all
  moreover from d have "draw_calls calls
           = [([CHR '';''], (0, 10), (0, 0, 100)), ([CHR ''!''], (6, 10), (120, 0, 100)),
              ([CHR ''}''], (12, 10), (9, 140, 6))]"
    by (simp add: cs demo_grid_draws)
  moreover from u un have "pixel_at asciiFrame 0 0 = black" by blast
  ultimately have first: "\<exists>asciiFrame calls.
         generateColorASCIIFrame demo_cv new_converter demo_grid = Inr (asciiFrame, calls)
       \<and> cols asciiFrame = 18 \<and> rows asciiFrame = 12
       \<and> draw_calls calls
           = [([CHR '';''], (0, 10), (0, 0, 100)), ([CHR ''!''], (6, 10), (120, 0, 100)),
              ([CHR ''}''], (12, 10), (9, 140, 6))]
       \<and> pixel_at asciiFrame 0 0 = black"
    using g by blast
  from sel demo_green_cell
  have green: "getASCIIChar ASCII_CHARS (cell_brightness demo_grid 0 2) = Inr CHR ''}''"
    by (simp only: cs)
  from demo_resized_draws(1) obtain g1
    where r1: "cv_resize demo_cv (demo_frame 1) (2, 1) = Some g1"
      and d1: "grid_draws_spec ASCII_CHARS g1
                 = [([CHR '';''], (0, 10), (0, 0, 100)), ([CHR ''!''], (6, 10), (120, 0, 100))]"
    by blast
  from demo_resized_draws(2) obtain g2
    where r2: "cv_resize demo_cv (demo_frame 2) (2, 1) = Some g2"
      and d2: "grid_draws_spec ASCII_CHARS g2
                 = [([CHR ''+''], (0, 10), (0, 0, 200)), ([CHR ''?''], (6, 10), (120, 0, 200))]"
    by blast
  from process_frame_resized [OF new_converter_ramp r1]
  obtain out calls' where pf: "process_frame demo_cv new_converter 2 1 (demo_frame 1) = Inr (out, calls')"
    by blast
  from round [OF this] obtain resized
    where "cv_resize demo_cv (demo_frame 1) (2, 1) = Some resized"
      and "draw_calls calls' = grid_draws_spec (currentCharset new_converter) resized"
      and "resize_to_size demo_cv
             \<longrightarrow> int (cols out) = 2 * ASCII_CHAR_WIDTH \<and> int (rows out) = 1 * ASCII_CHAR_HEIGHT"
    by blast
  with r1 d1 k demo_resize_to_size
  have "cols out = 12 \<and> rows out = 12
      \<and> draw_calls calls'
          = [([CHR '';''], (0, 10), (0, 0, 100)), ([CHR ''!''], (6, 10), (120, 0, 100))]"
    by (simp add: cs)
  with pf have second: "\<exists>out calls.
         process_frame demo_cv new_converter 2 1 (demo_frame 1) = Inr (out, calls)
       \<and> cols out = 12 \<and> rows out = 12
       \<and> draw_calls calls
           = [([CHR '';''], (0, 10), (0, 0, 100)), ([CHR ''!''], (6, 10), (120, 0, 100))]"
    by blast
  from demo_run obtain conv' tr
    where run: "convertToColorASCII demo_cv new_converter ''in.mp4'' ''out.mp4'' 2 1
                  = Inr (True, conv', tr)"
    by blast
  from whole [OF conjI [OF demo_input this]] obtain asciiHeight grids
    where gh: "grid_height 2 (cap_frame_height demo_capture) (cap_frame_width demo_capture)
                 = Inr asciiHeight"
      and l2: "list_all2
                 (\<lambda>frame resized. cv_resize demo_cv frame (2, asciiHeight) = Some resized)
                 (processed (cap_pending demo_capture)) grids"
      and w: "written_frames tr = map (canvas_spec demo_cv (currentCharset new_converter)) grids"
      and dc: "draw_calls tr = concat (map (grid_draws_spec (currentCharset new_converter)) grids)"
      and sz: "resize_to_size demo_cv
                 \<longrightarrow> (\<forall>out\<in>set (written_frames tr).
                        int (cols out) = 2 * ASCII_CHAR_WIDTH
                      \<and> int (rows out) = asciiHeight * ASCII_CHAR_HEIGHT)"
    by blast
  from gh have h: "asciiHeight = 1" by (simp add: demo_geometry)
  have frames: "processed (cap_pending demo_capture) = [demo_frame 1, demo_frame 2]"
    by (simp add: processed_def demo_capture_def demo_frame_def mat_empty_def)
  from l2 [unfolded frames h] r1 r2 have grids: "grids = [g1, g2]"
    by (auto simp: list_all2_Cons1 simp del: One_nat_def)
  have "list_all (\<lambda>out. cols out = 12 \<and> rows out = 12) (written_frames tr)"
    unfolding list_all_iff
  proof
    fix out assume "out \<in> set (written_frames tr)"
    with sz demo_resize_to_size
    have "int (cols out) = 2 * ASCII_CHAR_WIDTH \<and> int (rows out) = asciiHeight * ASCII_CHAR_HEIGHT"
      by blast
    then show "cols out = 12 \<and> rows out = 12"
      by (simp add: h ASCII_CHAR_WIDTH_def ASCII_CHAR_HEIGHT_def)
  qed
  moreover have "length (written_frames tr) = 2" by (simp add: w grids)
  moreover have "draw_calls tr
           = [([CHR '';''], (0, 10), (0, 0, 100)), ([CHR ''!''], (6, 10), (120, 0, 100)),
              ([CHR ''+''], (0, 10), (0, 0, 200)), ([CHR ''?''], (6, 10), (120, 0, 200))]"
    by (simp add: dc grids cs d1 d2)
  ultimately have third: "\<exists>conv' tr.
         convertToColorASCII demo_cv new_converter ''in.mp4'' ''out.mp4'' 2 1
           = Inr (True, conv', tr)
       \<and> length (written_frames tr) = 2
       \<and> list_all (\<lambda>out. cols out = 12 \<and> rows out = 12) (written_frames tr)
       \<and> draw_calls tr
           = [([CHR '';''], (0, 10), (0, 0, 100)), ([CHR ''!''], (6, 10), (120, 0, 100)),
              ([CHR ''+''], (0, 10), (0, 0, 200)), ([CHR ''?''], (6, 10), (120, 0, 200))]"
    using run by blast
  have "list_all (\<lambda>d. untouched_by demo_cv d 0 0)
         (grid_draws_spec (currentCharset new_converter) demo_grid)"
    using un by (simp only: list_all_iff)
  with first green second third new_converter_ramp demo_putText_in_place demo_input
  show ?thesis by blast
qed

text \<open>
  Claim C4. With the source opened and the frame size computed, the candidate encoders
  are tried in the order of the list and the first that opens is the one used: the
  attempts made are those up to and including it. When the candidates before it fail, the
  run still completes: \<^verbatim>\<open>convertToColorASCII\<close> returns true, the exit status is 0 and one
  frame is written for each frame read (provided \<^verbatim>\<open>cv::resize\<close> succeeds on the frames).
  When every candidate fails, the run
  reports that the output cannot be created, releases the capture, returns false, and the
  exit status is 1; the writer was never open and no frame was written.
\<close>

theorem codec_fallback:
  assumes "capture_open cv inputPath = Some cap"
    and "grid_height asciiWidth (cap_frame_height cap) (cap_frame_width cap) = Inr asciiHeight"
    and "frame_size asciiWidth asciiHeight = Inr frameSize"
  shows "(\<forall>pre c post.
            codecList = pre @ c # post
          \<and> (\<forall>codec\<in>set pre. \<not> writer_open cv outputPath (codec ! 0) (cap_fps cap) frameSize)
          \<and> writer_open cv outputPath (c ! 0) (cap_fps cap) frameSize
          \<longrightarrow> open_writer cv outputPath (cap_fps cap) frameSize codecList
                = (Some (c ! 0), map (attempt outputPath (cap_fps cap) frameSize) (pre @ [c]))
            \<and> (1 \<le> length (currentCharset conv) \<and> length (currentCharset conv) \<le> 2 ^ 31
               \<and> list_all (\<lambda>frame. cv_resize cv frame (asciiWidth, asciiHeight) \<noteq> None)
                     (processed (cap_pending cap))
               \<longrightarrow> (\<exists>conv' tr.
                      convertToColorASCII cv conv inputPath outputPath asciiWidth quality
                        = Inr (True, conv', tr)
                    \<and> report (convertToColorASCII cv conv inputPath outputPath asciiWidth quality)
                        = Inr (0, tr)
                    \<and> take (length pre + 2) tr
                        = CapOpen inputPath
                            # map (attempt outputPath (cap_fps cap) frameSize) (pre @ [c])
                    \<and> length (written_frames tr) = length (processed (cap_pending cap)))))
       \<and> ((\<forall>codec\<in>set codecList. \<not> writer_open cv outputPath (codec ! 0) (cap_fps cap) frameSize)
          \<longrightarrow> convertToColorASCII cv conv inputPath outputPath asciiWidth quality
                = Inr (False, conv,
                       CapOpen inputPath
                         # map (attempt outputPath (cap_fps cap) frameSize) codecList
                         @ [Cerr CannotCreateOutput, CapRelease])
            \<and> report (convertToColorASCII cv conv inputPath outputPath asciiWidth quality)
                = Inr (1, CapOpen inputPath
                            # map (attempt outputPath (cap_fps cap) frameSize) codecList
                            @ [Cerr CannotCreateOutput, CapRelease, Cerr ConversionFailed])
            \<and> written_frames
                 (CapOpen inputPath
                    # map (attempt outputPath (cap_fps cap) frameSize) codecList
                    @ [Cerr CannotCreateOutput, CapRelease]) = [])"
proof -
  let ?opens = "\<lambda>codec. writer_open cv outputPath (codec ! 0) (cap_fps cap) frameSize"
  let ?att = "attempt outputPath (cap_fps cap) frameSize"
  have first: "open_writer cv outputPath (cap_fps cap) frameSize codecList
                = (Some (c ! 0), map ?att (pre @ [c]))"
    if "codecList = pre @ c # post" "\<forall>codec\<in>set pre. \<not> ?opens codec" "?opens c" for pre c post
    using open_writer_first [OF that(2,3), of post] that(1) by simp
  have later: "\<exists>conv' tr.
                      convertToColorASCII cv conv inputPath outputPath asciiWidth quality
                        = Inr (True, conv', tr)
                    \<and> report (convertToColorASCII cv conv inputPath outputPath asciiWidth quality)
                        = Inr (0, tr)
                    \<and> take (length pre + 2) tr = CapOpen inputPath # map ?att (pre @ [c])
                    \<and> length (written_frames tr) = length (processed (cap_pending cap))"
    if split: "codecList = pre @ c # post" and fail: "\<forall>codec\<in>set pre. \<not> ?opens codec"
      and ok: "?opens c"
      and ramp: "1 \<le> length (currentCharset conv)" "length (currentCharset conv) \<le> 2 ^ 31"
      and rs: "list_all (\<lambda>frame. cv_resize cv frame (asciiWidth, asciiHeight) \<noteq> None)
                     (processed (cap_pending cap))"
    for pre c post
  proof -
    have "c \<in> set codecList" by (simp add: split)
    with ok have "\<exists>codec\<in>set codecList. ?opens codec" by blast
    from convert_completes [OF assms this ramp rs, of quality] obtain conv' tr
      where run: "convertToColorASCII cv conv inputPath outputPath asciiWidth quality
                    = Inr (True, conv', tr)"
      by blast
    from run [unfolded convert_opened [OF assms] first [OF split fail ok]]
    obtain cap' tr0
      where loop: "frame_loop cv asciiWidth asciiHeight
                    (conv\<lparr>frameCount := 0\<rparr>, cap, CapOpen inputPath # map ?att (pre @ [c]))
                   = Inr (conv', cap', tr0)"
        and tr: "tr = tr0 @ [CapRelease, WriterRelease]"
      by (auto split: sum.splits)
    from frame_loop_trace [OF loop] obtain more
      where "tr0 = (CapOpen inputPath # map ?att (pre @ [c])) @ more"
      by blast
    with tr have "take (length pre + 2) tr = CapOpen inputPath # map ?att (pre @ [c])"
      by simp
    moreover from successful_run [OF assms(1) run] obtain h outs
      where "list_all2 (\<lambda>frame out. process_frame cv conv asciiWidth h frame = Inr out)
               (processed (cap_pending cap)) outs"
        and "written_frames tr = map fst outs"
      by blast
    then have "length (written_frames tr) = length (processed (cap_pending cap))"
      by (simp add: list_all2_lengthD)
    ultimately show ?thesis using run by (simp add: report_def)
  qed
  have none: "convertToColorASCII cv conv inputPath outputPath asciiWidth quality
                = Inr (False, conv, CapOpen inputPath # map ?att codecList
                         @ [Cerr CannotCreateOutput, CapRelease])
            \<and> report (convertToColorASCII cv conv inputPath outputPath asciiWidth quality)
                = Inr (1, CapOpen inputPath # map ?att codecList
                            @ [Cerr CannotCreateOutput, CapRelease, Cerr ConversionFailed])
            \<and> written_frames
                 (CapOpen inputPath # map ?att codecList @ [Cerr CannotCreateOutput, CapRelease]) = []"
    if "\<forall>codec\<in>set codecList. \<not> ?opens codec"
    by (simp add: convert_all_fail [OF assms that] report_def written_frames_append attempts_silent)
  from first later none show ?thesis by blast
qed

lemma demo_codecList:
  "codecList = [[fourcc CHR ''m'' CHR ''p'' CHR ''4'' CHR ''v'']]
                 @ [fourcc CHR ''a'' CHR ''v'' CHR ''c'' CHR ''1'']
                 # [[fourcc CHR ''X'' CHR ''2'' CHR ''6'' CHR ''4''],
                    [fourcc CHR ''H'' CHR ''2'' CHR ''6'' CHR ''4'']]"
  by (simp add: codecList_def)

lemma demo_first_fails:
  "\<forall>codec\<in>set [[fourcc CHR ''m'' CHR ''p'' CHR ''4'' CHR ''v'']].
     \<not> writer_open demo_cv path (codec ! 0) fps sz"
  by (simp add: demo_cv_def fourcc_values)

lemma demo_second_opens:
  "writer_open demo_cv ''out.mp4'' ([fourcc CHR ''a'' CHR ''v'' CHR ''c'' CHR ''1''] ! 0) fps sz"
  by (simp add: demo_cv_def)

lemma demo_nowhere:
  "\<forall>codec\<in>set codecList. \<not> writer_open demo_cv ''nowhere.mp4'' (codec ! 0) fps sz"
  by (simp add: demo_cv_def)

lemma demo_pending: "length (processed (cap_pending demo_capture)) = 2"
  by (simp add: processed_def demo_capture_def demo_frame_def mat_empty_def)

lemma demo_resizes:
  "list_all (\<lambda>frame. cv_resize demo_cv frame (2, 1) \<noteq> None) (processed (cap_pending demo_capture))"
  using demo_frames_resize by (simp add: demo_cv_def)

theorem codec_fallback_witness:
  "capture_open demo_cv ''in.mp4'' = Some demo_capture
   \<and> grid_height 2 (cap_frame_height demo_capture) (cap_frame_width demo_capture) = Inr 1
   \<and> frame_size 2 1 = Inr (12, 12)
   \<and> \<not> writer_open demo_cv ''out.mp4'' (fourcc CHR ''m'' CHR ''p'' CHR ''4'' CHR ''v'') 25 (12, 12)
   \<and> writer_open demo_cv ''out.mp4'' (fourcc CHR ''a'' CHR ''v'' CHR ''c'' CHR ''1'') 25 (12, 12)
   \<and> (\<exists>conv' tr.
         convertToColorASCII demo_cv new_converter ''in.mp4'' ''out.mp4'' 2 1 = Inr (True, conv', tr)
       \<and> report (convertToColorASCII demo_cv new_converter ''in.mp4'' ''out.mp4'' 2 1) = Inr (0, tr)
       \<and> take 3 tr
           = [CapOpen ''in.mp4'',
              WriterOpen ''out.mp4'' (fourcc CHR ''m'' CHR ''p'' CHR ''4'' CHR ''v'') 25 (12, 12),
              WriterOpen ''out.mp4'' (fourcc CHR ''a'' CHR ''v'' CHR ''c'' CHR ''1'') 25 (12, 12)]
       \<and> length (written_frames tr) = 2)
   \<and> list_all (\<lambda>codec. \<not> writer_open demo_cv ''nowhere.mp4'' (codec ! 0) 25 (12, 12)) codecList
   \<and> report (convertToColorASCII demo_cv new_converter ''in.mp4'' ''nowhere.mp4'' 2 1)
       = Inr (1, [CapOpen ''in.mp4'',
                  WriterOpen ''nowhere.mp4'' (fourcc CHR ''m'' CHR ''p'' CHR ''4'' CHR ''v'') 25 (12, 12),
                  WriterOpen ''nowhere.mp4'' (fourcc CHR ''a'' CHR ''v'' CHR ''c'' CHR ''1'') 25 (12, 12),
                  WriterOpen ''nowhere.mp4'' (fourcc CHR ''X'' CHR ''2'' CHR ''6'' CHR ''4'') 25 (12, 12),
                  WriterOpen ''nowhere.mp4'' (fourcc CHR ''H'' CHR ''2'' CHR ''6'' CHR ''4'') 25 (12, 12),
                  Cerr CannotCreateOutput, CapRelease, Cerr ConversionFailed])"
proof -
  have fps: "cap_fps demo_capture = 25" by (simp add: demo_capture_def)
  note fb = codec_fallback [OF demo_input demo_geometry demo_frame_size]
  from fb [of "''out.mp4''" new_converter 1]
       demo_codecList demo_first_fails demo_second_opens new_converter_ramp demo_resizes
  have "\<exists>conv' tr.
         convertToColorASCII demo_cv new_converter ''in.mp4'' ''out.mp4'' 2 1 = Inr (True, conv', tr)
       \<and> report (convertToColorASCII demo_cv new_converter ''in.mp4'' ''out.mp4'' 2 1) = Inr (0, tr)
       \<and> take (length [[fourcc CHR ''m'' CHR ''p'' CHR ''4'' CHR ''v'']] + 2) tr
           = CapOpen ''in.mp4''
               # map (attempt ''out.mp4'' (cap_fps demo_capture) (12, 12))
                   ([[fourcc CHR ''m'' CHR ''p'' CHR ''4'' CHR ''v'']]
                     @ [[fourcc CHR ''a'' CHR ''v'' CHR ''c'' CHR ''1'']])
       \<and> length (written_frames tr) = length (processed (cap_pending demo_capture))"
    by blast
  then have good: "\<exists>conv' tr.
         convertToColorASCII demo_cv new_converter ''in.mp4'' ''out.mp4'' 2 1 = Inr (True, conv', tr)
       \<and> report (convertToColorASCII demo_cv new_converter ''in.mp4'' ''out.mp4'' 2 1) = Inr (0, tr)
       \<and> take 3 tr
           = [CapOpen ''in.mp4'',
              WriterOpen ''out.mp4'' (fourcc CHR ''m'' CHR ''p'' CHR ''4'' CHR ''v'') 25 (12, 12),
              WriterOpen ''out.mp4'' (fourcc CHR ''a'' CHR ''v'' CHR ''c'' CHR ''1'') 25 (12, 12)]
       \<and> length (written_frames tr) = 2"
    by (simp add: attempt_def fps numeral_3_eq_3 demo_pending)
  from fb [of "''nowhere.mp4''" new_converter 1] demo_nowhere
  have "report (convertToColorASCII demo_cv new_converter ''in.mp4'' ''nowhere.mp4'' 2 1)
                = Inr (1, CapOpen ''in.mp4''
                            # map (attempt ''nowhere.mp4'' (cap_fps demo_capture) (12, 12)) codecList
                            @ [Cerr CannotCreateOutput, CapRelease, Cerr ConversionFailed])"
    by blast
  then have bad: "report (convertToColorASCII demo_cv new_converter ''in.mp4'' ''nowhere.mp4'' 2 1)
       = Inr (1, [CapOpen ''in.mp4'',
                  WriterOpen ''nowhere.mp4'' (fourcc CHR ''m'' CHR ''p'' CHR ''4'' CHR ''v'') 25 (12, 12),
                  WriterOpen ''nowhere.mp4'' (fourcc CHR ''a'' CHR ''v'' CHR ''c'' CHR ''1'') 25 (12, 12),
                  WriterOpen ''nowhere.mp4'' (fourcc CHR ''X'' CHR ''2'' CHR ''6'' CHR ''4'') 25 (12, 12),
                  WriterOpen ''nowhere.mp4'' (fourcc CHR ''H'' CHR ''2'' CHR ''6'' CHR ''4'') 25 (12, 12),
                  Cerr CannotCreateOutput, CapRelease, Cerr ConversionFailed])"
    by (simp add: attempt_def fps codecList_def)
  have "\<not> writer_open demo_cv ''out.mp4'' (fourcc CHR ''m'' CHR ''p'' CHR ''4'' CHR ''v'') 25 (12, 12)"
    using demo_first_fails [of "''out.mp4''" 25 "(12, 12)"] by simp
  moreover have "writer_open demo_cv ''out.mp4'' (fourcc CHR ''a'' CHR ''v'' CHR ''c'' CHR ''1'') 25 (12, 12)"
    using demo_second_opens [of 25 "(12, 12)"] by simp
  moreover have "list_all (\<lambda>codec. \<not> writer_open demo_cv ''nowhere.mp4'' (codec ! 0) 25 (12, 12))
                   codecList"
    using demo_nowhere [of 25 "(12, 12)"] by (simp only: list_all_iff)
  ultimately show ?thesis
    using good bad demo_input demo_geometry demo_frame_size by blast
qed

lemma processed_draws:
  assumes "1 \<le> length (currentCharset conv)" and "length (currentCharset conv) \<le> 2 ^ 31"
    and "list_all2 (\<lambda>frame out. process_frame cv conv asciiWidth asciiHeight frame = Inr out) frames outs"
  shows "concat (map (\<lambda>out. draw_calls (snd out)) outs)
           = run_draws_spec cv (currentCharset conv) asciiWidth asciiHeight frames"
  using assms(3)
proof (induction rule: list_all2_induct)
  case Nil
  show ?case by (simp add: run_draws_spec_def)
next
  case (Cons frame frames out outs)
  from Cons.hyps(1) obtain grid where r: "cv_resize cv frame (asciiWidth, asciiHeight) = Some grid"
    by (auto simp: process_frame_def split: option.splits)
  from Cons.hyps(1) process_frame_resized [OF assms(1,2) r]
  have "snd out = map call_of (grid_draws_spec (currentCharset conv) grid)" by auto
  then have "draw_calls (snd out) = grid_draws_spec (currentCharset conv) grid"
    by (simp add: draw_calls_call_of)
  with Cons.IH r show ?case by (simp add: run_draws_spec_def)
qed

text \<open>
  Claim C8. Two successful runs on the same frame sequence, the same geometry and the
  same \<open>asciiWidth\<close>, with the same \<^verbatim>\<open>cv::resize\<close>, compute the same grid dimensions for
  every frame and draw the same glyphs, at the same origins and in the same colours, in
  the same order; so the sequences of glyph indices are the same. Nothing else has an
  influence: not the paths, the frame rate or frame count reported, the encoders
  available, the quality argument, the frame counter left by an earlier run, or what
  \<^verbatim>\<open>cv::putText\<close> paints. The ramp has no repeated glyph, so the glyph drawn determines the
  index that was computed for it.
\<close>

theorem runs_deterministic:
  assumes "convertToColorASCII cv1 conv1 in1 out1 asciiWidth q1 = Inr (True, conv1', tr1)"
    and "convertToColorASCII cv2 conv2 in2 out2 asciiWidth q2 = Inr (True, conv2', tr2)"
    and "capture_open cv1 in1 = Some cap1" and "capture_open cv2 in2 = Some cap2"
    and "cap_pending cap1 = cap_pending cap2"
    and "cap_frame_width cap1 = cap_frame_width cap2"
    and "cap_frame_height cap1 = cap_frame_height cap2"
    and "cv_resize cv1 = cv_resize cv2"
    and "currentCharset conv1 = ASCII_CHARS" and "currentCharset conv2 = ASCII_CHARS"
  shows "grid_sizes tr1 = grid_sizes tr2
       \<and> draw_calls tr1 = draw_calls tr2
       \<and> glyph_indices ASCII_CHARS tr1 = glyph_indices ASCII_CHARS tr2
       \<and> (\<exists>asciiHeight.
            grid_height asciiWidth (cap_frame_height cap1) (cap_frame_width cap1) = Inr asciiHeight
          \<and> grid_height asciiWidth (cap_frame_height cap2) (cap_frame_width cap2) = Inr asciiHeight
          \<and> grid_sizes tr1
              = replicate (length (processed (cap_pending cap1))) (asciiWidth, asciiHeight))
       \<and> distinct ASCII_CHARS"
proof -
  have ramp1: "1 \<le> length (currentCharset conv1)" "length (currentCharset conv1) \<le> 2 ^ 31"
    and ramp2: "1 \<le> length (currentCharset conv2)" "length (currentCharset conv2) \<le> 2 ^ 31"
    by (simp_all add: assms(9,10) length_ASCII_CHARS)
  from successful_run [OF assms(3,1)] obtain h1 outs1
    where gh1: "grid_height asciiWidth (cap_frame_height cap1) (cap_frame_width cap1) = Inr h1"
      and all1: "list_all2 (\<lambda>frame out. process_frame cv1 conv1 asciiWidth h1 frame = Inr out)
                   (processed (cap_pending cap1)) outs1"
      and d1: "draw_calls tr1 = concat (map (\<lambda>out. draw_calls (snd out)) outs1)"
      and g1: "grid_sizes tr1 = replicate (length outs1) (asciiWidth, h1)"
    by blast
  from successful_run [OF assms(4,2)] obtain h2 outs2
    where gh2: "grid_height asciiWidth (cap_frame_height cap2) (cap_frame_width cap2) = Inr h2"
      and all2: "list_all2 (\<lambda>frame out. process_frame cv2 conv2 asciiWidth h2 frame = Inr out)
                   (processed (cap_pending cap2)) outs2"
      and d2: "draw_calls tr2 = concat (map (\<lambda>out. draw_calls (snd out)) outs2)"
      and g2: "grid_sizes tr2 = replicate (length outs2) (asciiWidth, h2)"
    by blast
  from gh1 gh2 have h: "h2 = h1" by (simp add: assms(6,7))
  have n1: "length outs1 = length (processed (cap_pending cap1))"
    using all1 by (simp add: list_all2_lengthD)
  have n2: "length outs2 = length (processed (cap_pending cap1))"
    using all2 by (simp add: list_all2_lengthD assms(5))
  have s1: "draw_calls tr1
              = run_draws_spec cv1 ASCII_CHARS asciiWidth h1 (processed (cap_pending cap1))"
    using processed_draws [OF ramp1 all1] by (simp add: d1 assms(9))
  have s2: "draw_calls tr2
              = run_draws_spec cv2 ASCII_CHARS asciiWidth h1 (processed (cap_pending cap1))"
    using processed_draws [OF ramp2 all2] by (simp add: d2 assms(10) h assms(5))
  have same: "run_draws_spec cv2 ASCII_CHARS asciiWidth h1 (processed (cap_pending cap1))
              = run_draws_spec cv1 ASCII_CHARS asciiWidth h1 (processed (cap_pending cap1))"
    by (simp add: run_draws_spec_def assms(8))
  have draws: "draw_calls tr1 = draw_calls tr2" by (simp add: s1 s2 same)
  have sizes: "grid_sizes tr1 = grid_sizes tr2" by (simp add: g1 g2 n1 n2 h)
  have idx: "glyph_indices ASCII_CHARS tr1 = glyph_indices ASCII_CHARS tr2"
    by (simp add: glyph_indices_def draws)
  from gh1 gh2 h g1 n1 draws sizes idx distinct_ASCII_CHARS show ?thesis by auto
qed

lemma demo2_input: "capture_open demo_cv2 ''copy.mp4'' = Some demo_capture"
  by (simp add: demo_cv2_def)

lemma demo2_run:
  "\<exists>conv' tr. convertToColorASCII demo_cv2 (new_converter\<lparr>frameCount := 7\<rparr>)
                 ''copy.mp4'' ''elsewhere.avi'' 2 (1 / 2)
               = Inr (True, conv', tr)"
proof (rule convert_completes [OF demo2_input demo_geometry demo_frame_size])
  show "\<exists>codec\<in>set codecList.
          writer_open demo_cv2 ''elsewhere.avi'' (codec ! 0) (cap_fps demo_capture) (12, 12)"
    by (auto simp: codecList_def demo_cv2_def)
  show "1 \<le> length (currentCharset (new_converter\<lparr>frameCount := 7\<rparr>))"
    "length (currentCharset (new_converter\<lparr>frameCount := 7\<rparr>)) \<le> 2 ^ 31"
    using new_converter_ramp by simp_all
  show "list_all (\<lambda>frame. cv_resize demo_cv2 frame (2, 1) \<noteq> None)
          (processed (cap_pending demo_capture))"
    using demo_frames_resize by (simp add: demo_cv2_def)
qed

theorem runs_deterministic_witness:
  "capture_open demo_cv ''in.mp4'' = Some demo_capture
   \<and> capture_open demo_cv2 ''copy.mp4'' = Some demo_capture
   \<and> cv_resize demo_cv = cv_resize demo_cv2
   \<and> currentCharset new_converter = ASCII_CHARS
   \<and> currentCharset (new_converter\<lparr>frameCount := 7\<rparr>) = ASCII_CHARS
   \<and> (\<exists>conv1' tr1 conv2' tr2.
         convertToColorASCII demo_cv new_converter ''in.mp4'' ''out.mp4'' 2 1
           = Inr (True, conv1', tr1)
       \<and> convertToColorASCII demo_cv2 (new_converter\<lparr>frameCount := 7\<rparr>)
             ''copy.mp4'' ''elsewhere.avi'' 2 (1 / 2)
           = Inr (True, conv2', tr2)
       \<and> grid_sizes tr1 = grid_sizes tr2
       \<and> grid_sizes tr1 = [(2, 1), (2, 1)]
       \<and> draw_calls tr1 = draw_calls tr2
       \<and> glyph_indices ASCII_CHARS tr1 = glyph_indices ASCII_CHARS tr2)"
proof -
  from demo_run obtain conv1' tr1
    where r1: "convertToColorASCII demo_cv new_converter ''in.mp4'' ''out.mp4'' 2 1
                 = Inr (True, conv1', tr1)"
    by blast
  from demo2_run obtain conv2' tr2
    where r2: "convertToColorASCII demo_cv2 (new_converter\<lparr>frameCount := 7\<rparr>)
                 ''copy.mp4'' ''elsewhere.avi'' 2 (1 / 2)
               = Inr (True, conv2', tr2)"
    by blast
  have rs: "cv_resize demo_cv = cv_resize demo_cv2" by (simp add: demo_cv_def demo_cv2_def)
  have c1: "currentCharset new_converter = ASCII_CHARS"
    and c2: "currentCharset (new_converter\<lparr>frameCount := 7\<rparr>) = ASCII_CHARS"
    by (simp_all add: new_converter_def)
  have n: "length (processed (cap_pending demo_capture)) = 2"
    by (simp add: processed_def demo_capture_def demo_frame_def mat_empty_def)
  from runs_deterministic [OF r1 r2 demo_input demo2_input refl refl refl rs c1 c2]
  have "grid_sizes tr1 = grid_sizes tr2" and "draw_calls tr1 = draw_calls tr2"
    and "glyph_indices ASCII_CHARS tr1 = glyph_indices ASCII_CHARS tr2"
    and "\<exists>asciiHeight.
            grid_height 2 (cap_frame_height demo_capture) (cap_frame_width demo_capture) = Inr asciiHeight
          \<and> grid_sizes tr1 = replicate (length (processed (cap_pending demo_capture))) (2, asciiHeight)"
    by blast+
  moreover from this(4) have "grid_sizes tr1 = [(2, 1), (2, 1)]"
    by (auto simp: demo_geometry n numeral_2_eq_2)
  ultimately show ?thesis using r1 r2 demo_input demo2_input rs c1 c2 by blast
qed

lemma empty_input: "capture_open demo_cv ''empty.mp4'' = Some empty_capture"
  by (simp add: demo_cv_def)

lemma empty_geometry:
  "grid_height 150 (cap_frame_height empty_capture) (cap_frame_width empty_capture) = Inr 42"
proof -
  have "grid_height 150 1080 1920 = Inr ((150 * 1080) div 1920 div 2)"
    by (rule grid_height_nonneg) (simp_all add: INT_MAX_def)
  then show ?thesis by (simp add: empty_capture_def)
qed

lemma empty_frame_size: "frame_size 150 42 = Inr (900, 504)"
  by (simp add: frame_size_def int_mul_def fits_int_def INT_MIN_def INT_MAX_def
      ASCII_CHAR_WIDTH_def ASCII_CHAR_HEIGHT_def)

text \<open>
  Claim C5 as stated also says that a non-numeric width is rejected before any I/O.
  \<^verbatim>\<open>150abc\<close> is not a number, yet \<^verbatim>\<open>atoi\<close> reads it as 150: the input is opened, the writer
  is opened and the run ends with exit status 0.
\<close>

theorem non_numeric_width_accepted_counterexample:
  "\<not> all_digits ''150abc''
   \<and> main demo_cv [''miku'', ''empty.mp4'', ''out.mp4'', ''150abc'']
       = Inr (0, [CapOpen ''empty.mp4'',
                  WriterOpen ''out.mp4'' (fourcc CHR ''m'' CHR ''p'' CHR ''4'' CHR ''v'') 30 (900, 504),
                  WriterOpen ''out.mp4'' (fourcc CHR ''a'' CHR ''v'' CHR ''c'' CHR ''1'') 30 (900, 504),
                  CapRead, CapRelease, WriterRelease])"
proof -
  have nd: "\<not> all_digits ''150abc''" by (simp add: all_digits_def isdigit_def)
  have ow: "open_writer demo_cv ''out.mp4'' 30 (900, 504) codecList
              = (Some ([fourcc CHR ''a'' CHR ''v'' CHR ''c'' CHR ''1''] ! 0),
                 map (attempt ''out.mp4'' 30 (900, 504))
                   ([[fourcc CHR ''m'' CHR ''p'' CHR ''4'' CHR ''v'']]
                     @ [[fourcc CHR ''a'' CHR ''v'' CHR ''c'' CHR ''1'']]))"
    unfolding demo_codecList by (rule open_writer_first [OF demo_first_fails demo_second_opens])
  have loop: "frame_loop demo_cv 150 42 (conv, empty_capture, tr) = Inr (conv, empty_capture, tr @ [CapRead])"
    for conv tr
    by (rule frame_loop_exhausted) (simp add: empty_capture_def)
  have fps: "cap_fps empty_capture = 30" by (simp add: empty_capture_def)
  have "convertToColorASCII demo_cv new_converter ''empty.mp4'' ''out.mp4'' 150 1
          = Inr (True, new_converter\<lparr>frameCount := 0\<rparr>,
                 [CapOpen ''empty.mp4'',
                  WriterOpen ''out.mp4'' (fourcc CHR ''m'' CHR ''p'' CHR ''4'' CHR ''v'') 30 (900, 504),
                  WriterOpen ''out.mp4'' (fourcc CHR ''a'' CHR ''v'' CHR ''c'' CHR ''1'') 30 (900, 504),
                  CapRead, CapRelease, WriterRelease])"
    by (simp add: convert_opened [OF empty_input empty_geometry empty_frame_size] fps ow loop
        attempt_def)
  then have "main demo_cv [''miku'', ''empty.mp4'', ''out.mp4'', ''150abc'']
       = Inr (0, [CapOpen ''empty.mp4'',
                  WriterOpen ''out.mp4'' (fourcc CHR ''m'' CHR ''p'' CHR ''4'' CHR ''v'') 30 (900, 504),
                  WriterOpen ''out.mp4'' (fourcc CHR ''a'' CHR ''v'' CHR ''c'' CHR ''1'') 30 (900, 504),
                  CapRead, CapRelease, WriterRelease])"
    using main_accepts [OF atoi_150abc, of demo_cv "''miku''" "''empty.mp4''" "''out.mp4''" "[]"]
    by (simp add: report_def)
  with nd show ?thesis by blast
qed

end
